theory Spec2Isabelle
  imports Main "HOL-Library.Sublist" "HOL-Library.List_Lexorder"
begin

section \<open>JavaScript strings\<close>

text \<open>
  A JavaScript string is modelled as a \<open>string\<close>: a list of 8-bit characters, read as
  the code units U+0000 to U+00FF. The character classes below are the JavaScript ones
  restricted to that range.
\<close>

definition is_space :: "char \<Rightarrow> bool" where
  \<comment> \<open>the regular expression class \<open>\s\<close>; also what \<open>trim\<close> strips\<close>
  "is_space c = (c \<in> set [CHR 0x09, CHR 0x0A, CHR 0x0B, CHR 0x0C, CHR 0x0D, CHR 0x20, CHR 0xA0])"

definition is_word :: "char \<Rightarrow> bool" where
  \<comment> \<open>the regular expression class \<open>\w\<close>: \<open>[A-Za-z0-9_]\<close>\<close>
  "is_word c = (let n = (of_char c :: nat) in
     (48 \<le> n \<and> n \<le> 57) \<or> (65 \<le> n \<and> n \<le> 90) \<or> n = 95 \<or> (97 \<le> n \<and> n \<le> 122))"

definition is_line_terminator :: "char \<Rightarrow> bool" where
  \<comment> \<open>what \<open>.\<close> does not match, and where \<open>^\<close> and \<open>$\<close> match under the \<open>m\<close> flag\<close>
  "is_line_terminator c = (c = CHR 0x0A \<or> c = CHR 0x0D)"

definition lower_char :: "char \<Rightarrow> char" where
  "lower_char c = (let n = (of_char c :: nat) in
     if (65 \<le> n \<and> n \<le> 90) \<or> (192 \<le> n \<and> n \<le> 222 \<and> n \<noteq> 215) then char_of (n + 32) else c)"

definition toLowerCase :: "string \<Rightarrow> string" where
  "toLowerCase s = map lower_char s"

definition trim :: "string \<Rightarrow> string" where
  "trim s = rev (dropWhile is_space (rev (dropWhile is_space s)))"

definition startsWith :: "string \<Rightarrow> string \<Rightarrow> bool" where
  "startsWith s p = (take (length p) s = p)"

definition endsWith :: "string \<Rightarrow> string \<Rightarrow> bool" where
  "endsWith s p = (length p \<le> length s \<and> drop (length s - length p) s = p)"

fun str_includes :: "string \<Rightarrow> string \<Rightarrow> bool" where
  "str_includes [] p = (p = [])"
| "str_includes (c # cs) p = (startsWith (c # cs) p \<or> str_includes cs p)"

definition strip_non_slug :: "string \<Rightarrow> string" where
  \<comment> \<open>\<open>.replace(/[^\w\s-]/g, '')\<close>\<close>
  "strip_non_slug s = filter (\<lambda>c. is_word c \<or> is_space c \<or> c = CHR ''-'') s"

fun hyphenate_ws :: "bool \<Rightarrow> string \<Rightarrow> string" where
  \<comment> \<open>\<open>.replace(/\s+/g, '-')\<close>: every maximal run of white space becomes one hyphen;
      the flag says that the previous character belonged to the current run\<close>
  "hyphenate_ws in_run [] = []"
| "hyphenate_ws in_run (c # cs) =
     (if is_space c then (if in_run then hyphenate_ws True cs else CHR ''-'' # hyphenate_ws True cs)
      else c # hyphenate_ws False cs)"

fun digits :: "nat \<Rightarrow> string" where
  \<comment> \<open>a number interpolated into a template string\<close>
  "digits n = (if n < 10 then [char_of (48 + n)] else digits (n div 10) @ [char_of (48 + n mod 10)])"

section \<open>markdown.ts\<close>

record heading =
  h_level :: nat
  h_text :: string
  h_id :: string

text \<open>
  The module-global \<open>headings\<close> array is shared and mutated, and \<open>parseMarkdown\<close>
  returns a fresh array; arrays of headings therefore live in a store, addressed by
  reference. \<open>headings_ref\<close> is the reference held by the module constant.
\<close>

record js_heap =
  arrays :: "nat \<Rightarrow> heading list"
  next_ref :: nat

definition headings_ref :: nat where
  "headings_ref = 0"

definition module_init :: js_heap where
  \<comment> \<open>\<open>const headings: Heading[] = []\<close>\<close>
  "module_init = \<lparr>arrays = (\<lambda>_. []), next_ref = 1\<rparr>"

text \<open>
  \<open>marked\<close> and \<open>highlight.js\<close> are libraries. The lexer of \<open>marked\<close> is a parameter;
  of its tokens, the model distinguishes the two that the custom renderer handles, a
  token that contains other tokens (block quote, list, ...) with the markup the library
  puts around them, and any other token with the markup the library renders it to.
  The three functions of \<open>highlight.js\<close> that the renderer calls are parameters too.
\<close>

datatype token =
    Code string "string option"
  | Heading nat string
  | Nested string "token list" string
  | Leaf string

record md_ext =
  lexer :: "string \<Rightarrow> token list"
  getLanguage :: "string \<Rightarrow> bool"
  highlight :: "string \<Rightarrow> string \<Rightarrow> string"
  highlightAuto :: "string \<Rightarrow> string"

definition renderer_code :: "md_ext \<Rightarrow> string \<Rightarrow> string option \<Rightarrow> string" where
  \<comment> \<open>\<open>lang\<close> is \<open>None\<close> when the token carries no language (\<open>undefined\<close>)\<close>
  \<open>renderer_code X txt lang =
     (if lang = Some ''mermaid'' then ''<div class="mermaid">'' @ txt @ ''</div>''
      else
        let truthy = (case lang of None \<Rightarrow> False | Some l \<Rightarrow> l \<noteq> []);
            l = (case lang of None \<Rightarrow> [] | Some l \<Rightarrow> l);
            highlighted = (if truthy \<and> getLanguage X l then highlight X txt l
                           else highlightAuto X txt)
        in ''<pre><code class="hljs'' @ (if truthy then '' language-'' @ l else []) @ ''">''
             @ highlighted @ ''</code></pre>'')\<close>

definition renderer_heading :: "nat \<Rightarrow> string \<Rightarrow> js_heap \<Rightarrow> string \<times> js_heap" where
  \<open>renderer_heading depth txt h =
     (let ident = hyphenate_ws False (strip_non_slug (toLowerCase txt));
          h' = h\<lparr>arrays := (arrays h)(headings_ref :=
                  arrays h headings_ref @ [\<lparr>h_level = depth, h_text = txt, h_id = ident\<rparr>])\<rparr>
      in (''<h'' @ digits depth @ '' id="'' @ ident @ ''">'' @ txt @ ''</h'' @ digits depth @ ''>'', h'))\<close>

fun parse_token :: "md_ext \<Rightarrow> token \<Rightarrow> js_heap \<Rightarrow> string \<times> js_heap"
  and parse_tokens :: "md_ext \<Rightarrow> token list \<Rightarrow> js_heap \<Rightarrow> string \<times> js_heap" where
  "parse_token X (Code txt lang) h = (renderer_code X txt lang, h)"
| "parse_token X (Heading depth txt) h = renderer_heading depth txt h"
| "parse_token X (Nested before ts after) h =
     (case parse_tokens X ts h of (inner, h') \<Rightarrow> (before @ inner @ after, h'))"
| "parse_token X (Leaf out) h = (out, h)"
| "parse_tokens X [] h = ([], h)"
| "parse_tokens X (t # ts) h =
     (case parse_token X t h of (out, h') \<Rightarrow>
        (case parse_tokens X ts h' of (outs, h'') \<Rightarrow> (out @ outs, h'')))"

definition marked_parse :: "md_ext \<Rightarrow> string \<Rightarrow> js_heap \<Rightarrow> string \<times> js_heap" where
  "marked_parse X content h = parse_tokens X (lexer X content) h"

record parse_result =
  html :: string
  headings :: nat

definition parseMarkdown :: "md_ext \<Rightarrow> string \<Rightarrow> js_heap \<Rightarrow> parse_result \<times> js_heap" where
  "parseMarkdown X content h =
     (let h1 = h\<lparr>arrays := (arrays h)(headings_ref := [])\<rparr>;
          (out, h2) = marked_parse X content h1;
          r = next_ref h2;
          h3 = h2\<lparr>arrays := (arrays h2)(r := arrays h2 headings_ref), next_ref := Suc r\<rparr>
      in (\<lparr>html = out, headings = r\<rparr>, h3))"

text \<open>
  \<open>extractHeadings\<close> runs \<open>/^(#{1,6})\s+(.+)$/gm\<close> over the content. The matcher follows
  the backtracking order of the expression: each quantifier takes as much as it can and
  gives characters back one at a time.
\<close>

fun match_ws_text :: "string \<Rightarrow> (string \<times> nat) option" where
  \<comment> \<open>\<open>\s+(.+)$\<close> at the start of the string: the second group and the number of characters
      matched. A maximal run of \<open>.\<close> ends at a line terminator or at the end of the input,
      which is where \<open>$\<close> holds.\<close>
  "match_ws_text [] = None"
| "match_ws_text (c # cs) =
     (if is_space c then
        (case match_ws_text cs of
           Some (t, n) \<Rightarrow> Some (t, Suc n)
         | None \<Rightarrow>
            (let t = takeWhile (\<lambda>x. \<not> is_line_terminator x) cs
             in if t = [] then None else Some (t, Suc (length t))))
      else None)"

fun match_hashes :: "nat \<Rightarrow> string \<Rightarrow> (nat \<times> string \<times> nat) option" where
  \<comment> \<open>\<open>(#{1,6})\<close> taking \<open>k\<close> characters, then fewer\<close>
  "match_hashes 0 s = None"
| "match_hashes (Suc k) s =
     (case match_ws_text (drop (Suc k) s) of
        Some (t, n) \<Rightarrow> Some (Suc k, t, Suc k + n)
      | None \<Rightarrow> match_hashes k s)"

definition match_heading :: "string \<Rightarrow> (nat \<times> string \<times> nat) option" where
  "match_heading s = match_hashes (min 6 (length (takeWhile (\<lambda>c. c = CHR ''#'') s))) s"

definition line_start :: "char option \<Rightarrow> bool" where
  \<comment> \<open>\<open>^\<close> under the \<open>m\<close> flag, from the character before the position\<close>
  "line_start prev = (case prev of None \<Rightarrow> True | Some c \<Rightarrow> is_line_terminator c)"

fun exec_loop :: "char option \<Rightarrow> nat \<Rightarrow> string \<Rightarrow> heading list" where
  \<comment> \<open>the \<open>while ((match = headingRegex.exec(content)) !== null)\<close> loop; \<open>skip\<close> counts the
      characters left before \<open>lastIndex\<close>\<close>
  "exec_loop prev skip [] = []"
| "exec_loop prev skip (c # cs) =
     (if 0 < skip then exec_loop (Some c) (skip - 1) cs
      else if line_start prev then
        (case match_heading (c # cs) of
           Some (lvl, t, n) \<Rightarrow>
             (let txt = trim t;
                  ident = hyphenate_ws False (strip_non_slug (toLowerCase txt))
              in \<lparr>h_level = lvl, h_text = txt, h_id = ident\<rparr> # exec_loop (Some c) (n - 1) cs)
         | None \<Rightarrow> exec_loop (Some c) 0 cs)
      else exec_loop (Some c) 0 cs)"

definition extractHeadings :: "string \<Rightarrow> heading list" where
  "extractHeadings content = exec_loop None 0 content"

text \<open>
  The headings of a token sequence in document order, as the renderer records them, and
  the tokens of a document at any depth.
\<close>

fun token_headings :: "token \<Rightarrow> heading list"
  and tokens_headings :: "token list \<Rightarrow> heading list" where
  "token_headings (Code txt lang) = []"
| "token_headings (Heading depth txt) =
     [\<lparr>h_level = depth, h_text = txt, h_id = hyphenate_ws False (strip_non_slug (toLowerCase txt))\<rparr>]"
| "token_headings (Nested before ts after) = tokens_headings ts"
| "token_headings (Leaf out) = []"
| "tokens_headings [] = []"
| "tokens_headings (t # ts) = token_headings t @ tokens_headings ts"

fun subtokens :: "token \<Rightarrow> token list"
  and subtokens_list :: "token list \<Rightarrow> token list" where
  "subtokens (Nested before ts after) = Nested before ts after # subtokens_list ts"
| "subtokens (Code txt lang) = [Code txt lang]"
| "subtokens (Heading depth txt) = [Heading depth txt]"
| "subtokens (Leaf out) = [Leaf out]"
| "subtokens_list [] = []"
| "subtokens_list (t # ts) = subtokens t @ subtokens_list ts"

text \<open>Appending to the module-global array.\<close>

definition push_all :: "heading list \<Rightarrow> js_heap \<Rightarrow> js_heap" where
  "push_all hs h = h\<lparr>arrays := (arrays h)(headings_ref := arrays h headings_ref @ hs)\<rparr>"

section \<open>node:path\<close>

text \<open>
  The functions of \<open>node:path\<close> that the sources call. \<open>node:path\<close> is the
  implementation of the host: \<open>path.posix\<close> on a POSIX host, \<open>path.win32\<close> on Windows.
  A path is cut into its segments at the separators; \<open>normalize_segments\<close> is the
  library's \<open>normalizeString\<close> on segments: empty segments and \<open>.\<close> vanish, \<open>..\<close>
  removes the segment before it, and is kept at the front only where the path may climb
  above its start.
\<close>

fun split_on :: "(char \<Rightarrow> bool) \<Rightarrow> string \<Rightarrow> string list" where
  "split_on sep [] = [[]]"
| "split_on sep (c # cs) =
     (if sep c then [] # split_on sep cs
      else (case split_on sep cs of [] \<Rightarrow> [[c]] | p # ps \<Rightarrow> (c # p) # ps))"

fun join_sep :: "string \<Rightarrow> string list \<Rightarrow> string" where
  "join_sep sep [] = []"
| "join_sep sep [s] = s"
| "join_sep sep (s # t # ss) = s @ sep @ join_sep sep (t # ss)"

fun normalize_segments :: "bool \<Rightarrow> string list \<Rightarrow> string list \<Rightarrow> string list" where
  "normalize_segments allowAboveRoot res [] = res"
| "normalize_segments allowAboveRoot res (s # ss) =
     (if s = [] \<or> s = ''.'' then normalize_segments allowAboveRoot res ss
      else if s = ''..'' then
        (if res \<noteq> [] \<and> last res \<noteq> ''..'' then normalize_segments allowAboveRoot (butlast res) ss
         else if allowAboveRoot then normalize_segments allowAboveRoot (res @ [''..'']) ss
         else normalize_segments allowAboveRoot res ss)
      else normalize_segments allowAboveRoot (res @ [s]) ss)"

definition is_slash :: "char \<Rightarrow> bool" where
  "is_slash c = (c = CHR ''/'')"

definition normalizeString :: "string \<Rightarrow> bool \<Rightarrow> string" where
  "normalizeString path allowAboveRoot =
     join_sep ''/'' (normalize_segments allowAboveRoot [] (split_on is_slash path))"

subsection \<open>path.posix\<close>

definition posix_normalize :: "string \<Rightarrow> string" where
  "posix_normalize path =
     (if path = [] then ''.''
      else
        let isAbsolute = (hd path = CHR ''/'');
            trailingSeparator = (last path = CHR ''/'');
            p = normalizeString path (\<not> isAbsolute)
        in if p = [] then (if isAbsolute then ''/'' else if trailingSeparator then ''./'' else ''.'')
           else (if isAbsolute then ''/'' else []) @ p @ (if trailingSeparator then ''/'' else []))"

definition posix_join :: "string list \<Rightarrow> string" where
  "posix_join args =
     (let parts = filter (\<lambda>arg. arg \<noteq> []) args
      in if parts = [] then ''.'' else posix_normalize (join_sep ''/'' parts))"

fun resolve_loop :: "string list \<Rightarrow> string \<Rightarrow> string \<times> bool" where
  \<comment> \<open>the arguments from the last to the first, then the working directory; stops at the
      first absolute one\<close>
  "resolve_loop [] resolvedPath = (resolvedPath, False)"
| "resolve_loop (p # ps) resolvedPath =
     (if p = [] then resolve_loop ps resolvedPath
      else if hd p = CHR ''/'' then (p @ ''/'' @ resolvedPath, True)
      else resolve_loop ps (p @ ''/'' @ resolvedPath))"

definition posix_resolve :: "string \<Rightarrow> string list \<Rightarrow> string" where
  \<comment> \<open>the first argument is \<open>process.cwd()\<close>\<close>
  "posix_resolve cwd args =
     (case resolve_loop (rev args @ [cwd]) [] of
        (resolvedPath, resolvedAbsolute) \<Rightarrow>
          let p = normalizeString resolvedPath (\<not> resolvedAbsolute)
          in if resolvedAbsolute then ''/'' @ p else if p \<noteq> [] then p else ''.'')"

definition posix_dirname :: "string \<Rightarrow> string" where
  \<comment> \<open>scanning from the end, down to index 1: past the trailing slashes, past the last
      name, to the slash before it\<close>
  "posix_dirname path =
     (if path = [] then ''.''
      else
        let hasRoot = (hd path = CHR ''/'');
            t1 = dropWhile is_slash (rev (tl path));
            t2 = dropWhile (\<lambda>c. \<not> is_slash c) t1
        in if t2 = [] then (if hasRoot then ''/'' else ''.'')
           else if hasRoot \<and> length t2 = 1 then ''//''
           else take (length t2) path)"

fun strip_common :: "string list \<Rightarrow> string list \<Rightarrow> string list \<times> string list" where
  "strip_common (a # as) (b # bs) = (if a = b then strip_common as bs else (a # as, b # bs))"
| "strip_common as bs = (as, bs)"

definition path_segments :: "string \<Rightarrow> string list" where
  \<comment> \<open>the segments of a resolved path, below the root\<close>
  "path_segments p = filter (\<lambda>s. s \<noteq> []) (split_on is_slash p)"

definition posix_relative :: "string \<Rightarrow> string \<Rightarrow> string \<Rightarrow> string" where
  \<comment> \<open>both paths are resolved; below their longest common directory, one \<open>..\<close> for each
      remaining segment of \<open>from\<close>, then the remaining segments of \<open>to\<close>\<close>
  "posix_relative cwd from to =
     (if from = to then []
      else
        let from' = posix_resolve cwd [from];
            to' = posix_resolve cwd [to]
        in if from' = to' then []
           else (case strip_common (path_segments from') (path_segments to') of
                   (ups, downs) \<Rightarrow> join_sep ''/'' (map (\<lambda>_. ''..'') ups @ downs)))"

subsection \<open>path.win32\<close>

text \<open>
  On Windows both slashes separate, the result is written with backslashes, a path may
  start with a drive (\<open>C:\<close>), and paths are compared without regard to case. The model
  covers rooted paths with or without a drive and relative paths. Two forms are
  simplified: a path that starts with two separators (UNC) is read as a rooted path
  without a drive, and a drive-relative path (\<open>C:x\<close>) on the drive of the working
  directory is resolved against the working directory, on another drive against the
  root of that drive.
\<close>

definition is_win_sep :: "char \<Rightarrow> bool" where
  "is_win_sep c = (c = CHR ''/'' \<or> c = CHR 0x5C)"

definition is_drive_letter :: "char \<Rightarrow> bool" where
  "is_drive_letter c = (let n = (of_char c :: nat) in (65 \<le> n \<and> n \<le> 90) \<or> (97 \<le> n \<and> n \<le> 122))"

definition win32_root :: "string \<Rightarrow> string \<times> bool \<times> string" where
  \<comment> \<open>the drive, whether the path is rooted, and the rest\<close>
  "win32_root path =
     (case path of
        [] \<Rightarrow> ([], False, [])
      | c # cs \<Rightarrow>
          if is_win_sep c then ([], True, cs)
          else (case cs of
                  d # ds \<Rightarrow>
                    if is_drive_letter c \<and> d = CHR '':'' then
                      (case ds of
                         e # es \<Rightarrow> if is_win_sep e then ([c, d], True, es) else ([c, d], False, ds)
                       | [] \<Rightarrow> ([c, d], False, []))
                    else ([], False, path)
                | [] \<Rightarrow> ([], False, path)))"

definition win32_normalize :: "string \<Rightarrow> string" where
  "win32_normalize path =
     (if path = [] then ''.''
      else (case win32_root path of
        (device, isAbsolute, rest) \<Rightarrow>
          let tail0 = join_sep [CHR 0x5C] (normalize_segments (\<not> isAbsolute) [] (split_on is_win_sep rest));
              tail1 = (if tail0 = [] \<and> \<not> isAbsolute then ''.'' else tail0);
              tail2 = (if tail1 \<noteq> [] \<and> is_win_sep (last path) then tail1 @ [CHR 0x5C] else tail1)
          in device @ (if isAbsolute then [CHR 0x5C] else []) @ tail2))"

definition win32_join :: "string list \<Rightarrow> string" where
  "win32_join args =
     (let parts = filter (\<lambda>arg. arg \<noteq> []) args
      in if parts = [] then ''.'' else win32_normalize (join_sep [CHR 0x5C] parts))"

definition win32_resolve :: "string \<Rightarrow> string \<Rightarrow> string" where
  \<comment> \<open>one argument, against the working directory \<open>cwd\<close>, which is a rooted path with a
      drive\<close>
  "win32_resolve cwd path =
     (case win32_root cwd of
        (cdev, _, crest) \<Rightarrow>
          (case win32_root path of
             (device, isAbsolute, rest) \<Rightarrow>
               let dev = (if device = [] then cdev else device);
                   base = (if isAbsolute \<or> toLowerCase dev \<noteq> toLowerCase cdev then [] else crest @ [CHR 0x5C])
               in dev @ [CHR 0x5C]
                    @ join_sep [CHR 0x5C] (normalize_segments False [] (split_on is_win_sep (base @ rest)))))"

definition win32_relative :: "string \<Rightarrow> string \<Rightarrow> string \<Rightarrow> string" where
  \<comment> \<open>as on POSIX, with the segments compared in lower case and the result taken from the
      resolved \<open>to\<close>; paths on different drives have no relative form and \<open>to\<close> is returned\<close>
  "win32_relative cwd from to =
     (if from = to then []
      else
        let fromOrig = win32_resolve cwd from;
            toOrig = win32_resolve cwd to
        in if toLowerCase fromOrig = toLowerCase toOrig then []
           else if toLowerCase (take 2 fromOrig) \<noteq> toLowerCase (take 2 toOrig) then toOrig
           else
             let fs = filter (\<lambda>s. s \<noteq> []) (split_on is_win_sep (drop 2 fromOrig));
                 ts = filter (\<lambda>s. s \<noteq> []) (split_on is_win_sep (drop 2 toOrig));
                 n = length (takeWhile (\<lambda>(a, b). toLowerCase a = toLowerCase b) (zip fs ts))
             in join_sep [CHR 0x5C] (map (\<lambda>_. ''..'') (drop n fs) @ drop n ts))"

text \<open>The two functions of \<open>node:path\<close> that \<open>fileTree.ts\<close> imports, as the host provides them.\<close>

record path_module =
  join :: "string \<Rightarrow> string \<Rightarrow> string"
  relative :: "string \<Rightarrow> string \<Rightarrow> string"

definition posix_path :: "string \<Rightarrow> path_module" where
  "posix_path cwd = \<lparr>join = (\<lambda>a b. posix_join [a, b]), relative = posix_relative cwd\<rparr>"

definition win32_path :: "string \<Rightarrow> path_module" where
  "win32_path cwd = \<lparr>join = (\<lambda>a b. win32_join [a, b]), relative = win32_relative cwd\<rparr>"

section \<open>The file system\<close>

text \<open>
  A file system is a tree: a regular file with its content, a directory with its entries
  in the order \<open>readdir\<close> lists them, a directory that cannot be listed, and an entry that
  is neither a regular file nor a directory (a socket, a device).
\<close>

datatype fsnode =
    File string
  | Dir "(string \<times> fsnode) list"
  | NoAccess
  | Special

datatype fs_error = ENOENT | ENOTDIR | EACCES | EISDIR | ENXIO

fun isDirectory :: "fsnode \<Rightarrow> bool" where
  "isDirectory (Dir es) = True"
| "isDirectory NoAccess = True"
| "isDirectory n = False"

fun isFile :: "fsnode \<Rightarrow> bool" where
  "isFile (File content) = True"
| "isFile n = False"

fun readdir :: "fsnode \<Rightarrow> fs_error + (string \<times> fsnode) list" where
  "readdir (Dir es) = Inr es"
| "readdir NoAccess = Inl EACCES"
| "readdir n = Inl ENOTDIR"

fun fs_lookup :: "fsnode \<Rightarrow> string list \<Rightarrow> fsnode option" where
  "fs_lookup n [] = Some n"
| "fs_lookup (Dir es) (s # ss) = (case map_of es s of None \<Rightarrow> None | Some c \<Rightarrow> fs_lookup c ss)"
| "fs_lookup n (s # ss) = None"

definition stat :: "fsnode \<Rightarrow> string \<Rightarrow> fs_error + fsnode" where
  \<comment> \<open>the path is absolute; the first argument is the root directory\<close>
  "stat root p = (case fs_lookup root (path_segments p) of None \<Rightarrow> Inl ENOENT | Some n \<Rightarrow> Inr n)"

definition readFile :: "fsnode \<Rightarrow> string \<Rightarrow> fs_error + string" where
  "readFile root p =
     (case fs_lookup root (path_segments p) of
        None \<Rightarrow> Inl ENOENT
      | Some (File content) \<Rightarrow> Inr content
      | Some (Dir es) \<Rightarrow> Inl EISDIR
      | Some NoAccess \<Rightarrow> Inl EISDIR
      | Some Special \<Rightarrow> Inl ENXIO)"

section \<open>fileTree.ts\<close>

datatype node_type = file_node | directory_node

datatype tree_node =
  TreeNode (name: string) (path: string) (type: node_type) (children: "tree_node list option")

definition IGNORE_PATTERNS :: "string list" where
  "IGNORE_PATTERNS = [''node_modules'', ''.git'', ''.DS_Store'', ''dist'', ''.next'', ''.cache'']"

definition isMarkdownFile :: "string \<Rightarrow> bool" where
  "isMarkdownFile filename =
     (let ext = toLowerCase filename in endsWith ext ''.md'' \<or> endsWith ext ''.markdown'')"

fun has_file :: "tree_node \<Rightarrow> bool"
  and hasMarkdownFiles :: "tree_node list \<Rightarrow> bool" where
  \<comment> \<open>\<open>nodes.some(node => node.type === 'file' || (node.children && hasMarkdownFiles(node.children)))\<close>\<close>
  "has_file (TreeNode n p t ch) =
     (t = file_node \<or> (case ch of None \<Rightarrow> False | Some cs \<Rightarrow> hasMarkdownFiles cs))"
| "hasMarkdownFiles [] = False"
| "hasMarkdownFiles (node # nodes) = (has_file node \<or> hasMarkdownFiles nodes)"

text \<open>
  \<open>localeCompare\<close> compares by the collation of the locale. The collation is a parameter:
  a function from names to sort keys of a linearly ordered type.
\<close>

definition localeCompare :: "(string \<Rightarrow> 'k::linorder) \<Rightarrow> string \<Rightarrow> string \<Rightarrow> int" where
  "localeCompare collate a b = (if collate a < collate b then - 1 else if collate a = collate b then 0 else 1)"

definition compare_nodes :: "(string \<Rightarrow> 'k::linorder) \<Rightarrow> tree_node \<Rightarrow> tree_node \<Rightarrow> int" where
  \<comment> \<open>the comparator passed to \<open>nodes.sort\<close>\<close>
  "compare_nodes collate a b =
     (if type a = type b then localeCompare collate (name a) (name b)
      else if type a = directory_node then - 1 else 1)"

fun insert_sorted :: "('a \<Rightarrow> 'a \<Rightarrow> int) \<Rightarrow> 'a \<Rightarrow> 'a list \<Rightarrow> 'a list" where
  "insert_sorted cmp x [] = [x]"
| "insert_sorted cmp x (y # ys) = (if cmp x y \<le> 0 then x # y # ys else y # insert_sorted cmp x ys)"

definition array_sort :: "('a \<Rightarrow> 'a \<Rightarrow> int) \<Rightarrow> 'a list \<Rightarrow> 'a list" where
  \<comment> \<open>\<open>Array.prototype.sort\<close> is stable; a stable insertion sort gives its result\<close>
  "array_sort cmp xs = foldr (insert_sorted cmp) xs []"

text \<open>
  \<open>buildFileTree\<close> takes the directory that \<open>dirPath\<close> names as a node of the file
  system; the recursive call goes to the entry's node with the entry's path.
\<close>

fun buildFileTree ::
    "path_module \<Rightarrow> (string \<Rightarrow> 'k::linorder) \<Rightarrow> fsnode \<Rightarrow> string \<Rightarrow> string \<Rightarrow> fs_error + tree_node list"
  and scan_entries ::
    "path_module \<Rightarrow> (string \<Rightarrow> 'k::linorder) \<Rightarrow> (string \<times> fsnode) list \<Rightarrow> string \<Rightarrow> string \<Rightarrow> fs_error + tree_node list"
  where
  "buildFileTree P collate (Dir es) dirPath basePath =
     (case scan_entries P collate es dirPath basePath of
        Inl e \<Rightarrow> Inl e
      | Inr nodes \<Rightarrow> Inr (array_sort (compare_nodes collate) nodes))"
| "buildFileTree P collate NoAccess dirPath basePath = Inl EACCES"
| "buildFileTree P collate (File content) dirPath basePath = Inl ENOTDIR"
| "buildFileTree P collate Special dirPath basePath = Inl ENOTDIR"
| "scan_entries P collate [] dirPath basePath = Inr []"
| "scan_entries P collate ((entry_name, entry) # es) dirPath basePath =
     (if entry_name \<in> set IGNORE_PATTERNS then scan_entries P collate es dirPath basePath
      else
        let fullPath = join P dirPath entry_name;
            relativePath = relative P basePath fullPath
        in if isDirectory entry then
             (case buildFileTree P collate entry fullPath basePath of
                Inl e \<Rightarrow> Inl e
              | Inr children' \<Rightarrow>
                 (case scan_entries P collate es dirPath basePath of
                    Inl e \<Rightarrow> Inl e
                  | Inr nodes \<Rightarrow>
                      if 0 < length children' \<or> hasMarkdownFiles children'
                      then Inr (TreeNode entry_name relativePath directory_node (Some children') # nodes)
                      else Inr nodes))
           else if isFile entry \<and> isMarkdownFile entry_name then
             (case scan_entries P collate es dirPath basePath of
                Inl e \<Rightarrow> Inl e
              | Inr nodes \<Rightarrow> Inr (TreeNode entry_name relativePath file_node None # nodes))
           else scan_entries P collate es dirPath basePath)"

definition fileExists :: "fsnode \<Rightarrow> string \<Rightarrow> bool" where
  \<comment> \<open>\<open>try { await stat(filePath); return true } catch { return false }\<close>\<close>
  "fileExists root filePath = (case stat root filePath of Inr n \<Rightarrow> True | Inl e \<Rightarrow> False)"

section \<open>routes/api.ts\<close>

text \<open>
  \<open>rewriteAssetPaths\<close> replaces every match of
  \<open>/(<img\s+[^>]*src=["'])([^"']+)(["'][^>]*>)/gi\<close>. The matcher follows the backtracking
  order of the expression and returns the three groups of the first match it finds at a
  position. Under the \<open>i\<close> flag the letters of \<open><img\<close> and \<open>src=\<close> match in either case.
\<close>

definition is_quote :: "char \<Rightarrow> bool" where
  "is_quote c = (c = CHR 0x22 \<or> c = CHR 0x27)"

definition match_src :: "string \<Rightarrow> (string \<times> string \<times> string) option" where
  \<comment> \<open>\<open>src=["']\<close>, \<open>([^"']+)\<close>, \<open>(["'][^>]*>)\<close> at the start of the string: what the first part
      matched, the second group and the third group. A maximal run of \<open>[^"']\<close> ends at a
      quote or at the end of the input, and a run of \<open>[^>]\<close> at \<open>>\<close> or at the end.\<close>
  "match_src s =
     (if toLowerCase (take 4 s) = ''src='' then
        (case drop 4 s of
           [] \<Rightarrow> None
         | q # r \<Rightarrow>
            if is_quote q then
              (let v = takeWhile (\<lambda>c. \<not> is_quote c) r
               in if v = [] then None
                  else (case dropWhile (\<lambda>c. \<not> is_quote c) r of
                          [] \<Rightarrow> None
                        | q' # r' \<Rightarrow>
                           (case dropWhile (\<lambda>c. c \<noteq> CHR ''>'') r' of
                              [] \<Rightarrow> None
                            | g # r'' \<Rightarrow>
                               Some (take 4 s @ [q], v, q' # takeWhile (\<lambda>c. c \<noteq> CHR ''>'') r' @ [g]))))
            else None)
      else None)"

fun match_attrs :: "string \<Rightarrow> (string \<times> string \<times> string) option" where
  \<comment> \<open>\<open>[^>]*\<close> followed by \<open>match_src\<close>: the longest run first\<close>
  "match_attrs [] = match_src []"
| "match_attrs (c # cs) =
     (if c \<noteq> CHR ''>'' then
        (case match_attrs cs of
           Some (pre, v, suf) \<Rightarrow> Some (c # pre, v, suf)
         | None \<Rightarrow> match_src (c # cs))
      else match_src (c # cs))"

fun match_ws_attrs :: "string \<Rightarrow> (string \<times> string \<times> string) option" where
  \<comment> \<open>\<open>\s+\<close> followed by \<open>match_attrs\<close>: the longest run first\<close>
  "match_ws_attrs [] = None"
| "match_ws_attrs (c # cs) =
     (if is_space c then
        (case match_ws_attrs cs of
           Some (pre, v, suf) \<Rightarrow> Some (c # pre, v, suf)
         | None \<Rightarrow>
            (case match_attrs cs of
               Some (pre, v, suf) \<Rightarrow> Some (c # pre, v, suf)
             | None \<Rightarrow> None))
      else None)"

definition match_img :: "string \<Rightarrow> (string \<times> string \<times> string) option" where
  \<comment> \<open>the whole expression at the start of the string: \<open>(prefix, src, suffix)\<close>\<close>
  "match_img s =
     (if toLowerCase (take 4 s) = ''<img'' then
        (case match_ws_attrs (drop 4 s) of
           Some (pre, v, suf) \<Rightarrow> Some (take 4 s @ pre, v, suf)
         | None \<Rightarrow> None)
      else None)"

definition replacer :: "string \<Rightarrow> string \<Rightarrow> string \<Rightarrow> string \<Rightarrow> string" where
  \<comment> \<open>the callback of \<open>replace\<close>; the three groups; the match is \<open>pfx @ src @ sfx\<close>\<close>
  "replacer fileDir pfx src sfx =
     (if startsWith src ''http://'' \<or> startsWith src ''https://'' \<or>
         startsWith src ''data:'' \<or> startsWith src ''/''
      then pfx @ src @ sfx
      else
        let assetPath = posix_normalize (posix_join [''/assets'', fileDir, src])
        in pfx @ assetPath @ sfx)"

fun replace_matches :: "string \<Rightarrow> nat \<Rightarrow> string \<Rightarrow> string" where
  \<comment> \<open>\<open>html.replace\<close> with the \<open>g\<close> flag, from left to right; \<open>skip\<close> counts the characters
      of the last match that are still ahead\<close>
  "replace_matches fileDir skip [] = []"
| "replace_matches fileDir skip (c # cs) =
     (if 0 < skip then replace_matches fileDir (skip - 1) cs
      else
        (case match_img (c # cs) of
           Some (pfx, src, sfx) \<Rightarrow>
             replacer fileDir pfx src sfx
               @ replace_matches fileDir (length pfx + length src + length sfx - 1) cs
         | None \<Rightarrow> c # replace_matches fileDir 0 cs))"

definition rewriteAssetPaths :: "string \<Rightarrow> string \<Rightarrow> string" where
  "rewriteAssetPaths html_text fileDir = replace_matches fileDir 0 html_text"

datatype serve_mode = file_mode | directory_mode

record app_context =
  mode :: serve_mode
  targetPath :: string
  basePath :: string

text \<open>
  The handler of \<open>/api/content\<close>, on a POSIX host with working directory \<open>cwd\<close>. Its result
  is the reply, or the error with which the handler's promise rejects; beside it the
  model returns the accesses made to the file system, in order, and the store.
\<close>

datatype fs_access = Stat string | ReadFile string

datatype reply_body =
    Error string
  | Content string string "heading list" string

datatype outcome =
    Reply nat reply_body
  | Rejected fs_error

definition content_handler ::
    "string \<Rightarrow> md_ext \<Rightarrow> app_context \<Rightarrow> fsnode \<Rightarrow> js_heap \<Rightarrow> string option
       \<Rightarrow> outcome \<times> fs_access list \<times> js_heap" where
  "content_handler cwd X context root h query_file =
     (case query_file of
        None \<Rightarrow> (Reply 400 (Error ''File parameter is required''), [], h)
      | Some f \<Rightarrow>
         if f = [] then (Reply 400 (Error ''File parameter is required''), [], h)
         else
           let normalizedPath = posix_normalize f
           in if str_includes normalizedPath ''..'' \<or> startsWith normalizedPath ''/''
              then (Reply 403 (Error ''Invalid file path''), [], h)
              else
                let fullPath = (if mode context = file_mode
                                then posix_resolve cwd [basePath context, targetPath context]
                                else posix_join [basePath context, normalizedPath]);
                    resolvedPath = posix_resolve cwd [fullPath]
                in if \<not> startsWith resolvedPath (posix_resolve cwd [basePath context])
                   then (Reply 403 (Error ''Access denied''), [], h)
                   else if \<not> fileExists root resolvedPath
                   then (Reply 404 (Error ''File not found''), [Stat resolvedPath], h)
                   else
                     (case readFile root resolvedPath of
                        Inl e \<Rightarrow> (Rejected e, [Stat resolvedPath, ReadFile resolvedPath], h)
                      | Inr raw \<Rightarrow>
                         (case parseMarkdown X raw h of
                            (parsed, h') \<Rightarrow>
                              let fileDir = (if mode context = file_mode then []
                                             else posix_dirname normalizedPath);
                                  processedHtml = rewriteAssetPaths (html parsed) fileDir
                              in (Reply 200 (Content normalizedPath processedHtml
                                               (arrays h' (headings parsed)) raw),
                                  [Stat resolvedPath, ReadFile resolvedPath], h'))))"

section \<open>watcher.ts and routes/sse.ts\<close>

datatype change_type = add | change | unlink

record file_change_event =
  ev_type :: change_type
  ev_file :: string

datatype sse_message =
    connected
  | fileChange file_change_event
  | heartbeat

text \<open>
  The server runs on one thread: what happens is a sequence of events, each handled to
  completion. A connection is named by the number of connections opened before it. The
  state holds the listeners of the watcher's \<open>change\<close> topic in the order of their
  registration (one closure \<open>onFileChange\<close> for each connection), the connections whose
  heartbeat interval is set, the requests whose \<open>close\<close> event has not fired, and every
  message written to a response, oldest first.
\<close>

record server_state =
  listeners :: "nat list"
  intervals :: "nat list"
  open_requests :: "nat list"
  written :: "(nat \<times> sse_message) list"
  next_connection :: nat

datatype server_event =
    Connect
  | Chokidar change_type string
  | Interval nat
  | Close nat

definition initial :: server_state where
  "initial = \<lparr>listeners = [], intervals = [], open_requests = [], written = [], next_connection = 0\<rparr>"

definition handleEvent :: "path_module \<Rightarrow> string \<Rightarrow> change_type \<Rightarrow> string \<Rightarrow> file_change_event option" where
  \<comment> \<open>\<open>FileWatcher.handleEvent\<close>: the event it emits on \<open>change\<close>, if any; the private
      \<open>isMarkdownFile\<close> of the watcher has the body of the one in \<open>fileTree.ts\<close>\<close>
  "handleEvent P base ty filePath =
     (if \<not> isMarkdownFile filePath then None
      else Some \<lparr>ev_type = ty, ev_file = relative P base filePath\<rparr>)"

definition emit :: "file_change_event \<Rightarrow> server_state \<Rightarrow> server_state" where
  \<comment> \<open>\<open>EventEmitter.emit\<close> calls the listeners in the order of their registration; the
      listener of a connection writes one \<open>fileChange\<close> message to its response\<close>
  "emit event s = s\<lparr>written := written s @ map (\<lambda>c. (c, fileChange event)) (listeners s)\<rparr>"

definition off :: "nat \<Rightarrow> nat list \<Rightarrow> nat list" where
  \<comment> \<open>\<open>EventEmitter.off\<close> removes the most recently added instance of the listener\<close>
  "off c ls = rev (remove1 c (rev ls))"

fun step :: "path_module \<Rightarrow> string option \<Rightarrow> server_event \<Rightarrow> server_state \<Rightarrow> server_state" where
  \<comment> \<open>the second argument is the watcher: \<open>None\<close> for \<open>null\<close>, or its base path\<close>
  "step P watcher Connect s =
     (let c = next_connection s
      in s\<lparr>written := written s @ [(c, connected)],
           intervals := intervals s @ [c],
           listeners := (if watcher \<noteq> None then listeners s @ [c] else listeners s),
           open_requests := open_requests s @ [c],
           next_connection := Suc c\<rparr>)"
| "step P watcher (Chokidar ty filePath) s =
     (case watcher of
        None \<Rightarrow> s
      | Some base \<Rightarrow>
         (case handleEvent P base ty filePath of
            None \<Rightarrow> s
          | Some event \<Rightarrow> emit event s))"
| "step P watcher (Interval c) s =
     (if c \<in> set (intervals s) then s\<lparr>written := written s @ [(c, heartbeat)]\<rparr> else s)"
| "step P watcher (Close c) s =
     (if c \<in> set (open_requests s)
      then s\<lparr>intervals := removeAll c (intervals s),
             listeners := (if watcher \<noteq> None then off c (listeners s) else listeners s),
             open_requests := removeAll c (open_requests s)\<rparr>
      else s)"

fun run :: "path_module \<Rightarrow> string option \<Rightarrow> server_event list \<Rightarrow> server_state \<Rightarrow> server_state" where
  "run P watcher [] s = s"
| "run P watcher (e # es) s = run P watcher es (step P watcher e s)"

text \<open>
  What a connection received, what its listener was called with, and what the watcher
  emitted during a sequence of events.
\<close>

definition messages :: "nat \<Rightarrow> server_state \<Rightarrow> sse_message list" where
  "messages c s = map snd (filter (\<lambda>(c', m). c' = c) (written s))"

fun change_of :: "sse_message \<Rightarrow> file_change_event option" where
  "change_of (fileChange event) = Some event"
| "change_of m = None"

definition deliveries :: "nat \<Rightarrow> server_state \<Rightarrow> file_change_event list" where
  "deliveries c s = List.map_filter change_of (messages c s)"

fun emission :: "path_module \<Rightarrow> string option \<Rightarrow> server_event \<Rightarrow> file_change_event option" where
  "emission P (Some base) (Chokidar ty filePath) = handleEvent P base ty filePath"
| "emission P watcher e = None"

definition emissions :: "path_module \<Rightarrow> string option \<Rightarrow> server_event list \<Rightarrow> file_change_event list" where
  "emissions P watcher es = List.map_filter (emission P watcher) es"

section \<open>Well-formed trees\<close>

text \<open>
  What the tree of a directory has to satisfy, against the entries of that directory.
  \<open>contains_markdown\<close>: the entries hold an eligible file, that is a regular file with
  a Markdown name, directly or in a directory below, on a way that passes through no
  ignored name. \<open>ordered_siblings\<close>: the directories come first, then the files, each
  group in the order of the collation. \<open>well_formed\<close>: the siblings are ordered and each
  node is well formed; a file node stands for a regular file of that name among the
  entries, with a Markdown name; a directory node has at least one child and a file node
  at or below its children, it stands for a directory of that name among the entries
  that contains an eligible file, and its children are well formed against that
  directory; no node bears an ignored name.
\<close>

fun holds_markdown :: "fsnode \<Rightarrow> bool"
  and contains_markdown :: "(string \<times> fsnode) list \<Rightarrow> bool" where
  "holds_markdown (Dir es) = contains_markdown es"
| "holds_markdown (File content) = False"
| "holds_markdown NoAccess = False"
| "holds_markdown Special = False"
| "contains_markdown [] = False"
| "contains_markdown ((entry_name, entry) # es) =
     ((entry_name \<notin> set IGNORE_PATTERNS
         \<and> ((isFile entry \<and> isMarkdownFile entry_name) \<or> holds_markdown entry))
      \<or> contains_markdown es)"

definition ordered_siblings :: "(string \<Rightarrow> 'k::linorder) \<Rightarrow> tree_node list \<Rightarrow> bool" where
  "ordered_siblings collate nodes =
     (let ds = filter (\<lambda>t. type t = directory_node) nodes;
          fs = filter (\<lambda>t. type t = file_node) nodes
      in nodes = ds @ fs
         \<and> sorted (map (\<lambda>t. collate (name t)) ds)
         \<and> sorted (map (\<lambda>t. collate (name t)) fs))"

fun well_formed_node :: "(string \<Rightarrow> 'k::linorder) \<Rightarrow> (string \<times> fsnode) list \<Rightarrow> tree_node \<Rightarrow> bool"
  and well_formed :: "(string \<Rightarrow> 'k::linorder) \<Rightarrow> (string \<times> fsnode) list \<Rightarrow> tree_node list \<Rightarrow> bool"
  and all_well_formed :: "(string \<Rightarrow> 'k::linorder) \<Rightarrow> (string \<times> fsnode) list \<Rightarrow> tree_node list \<Rightarrow> bool"
  where
  "well_formed_node collate es (TreeNode n p file_node ch) =
     (n \<notin> set IGNORE_PATTERNS \<and> isMarkdownFile n \<and> ch = None
      \<and> list_ex (\<lambda>(entry_name, entry). entry_name = n \<and> isFile entry) es)"
| "well_formed_node collate es (TreeNode n p directory_node None) = False"
| "well_formed_node collate es (TreeNode n p directory_node (Some cs)) =
     (n \<notin> set IGNORE_PATTERNS \<and> cs \<noteq> [] \<and> hasMarkdownFiles cs
      \<and> list_ex (\<lambda>(entry_name, entry). entry_name = n \<and>
           (case entry of
              Dir sub \<Rightarrow> contains_markdown sub \<and> well_formed collate sub cs
            | _ \<Rightarrow> False)) es)"
| "well_formed collate es nodes = (ordered_siblings collate nodes \<and> all_well_formed collate es nodes)"
| "all_well_formed collate es [] = True"
| "all_well_formed collate es (t # ts) = (well_formed_node collate es t \<and> all_well_formed collate es ts)"

text \<open>The order that the comparator of \<open>buildFileTree\<close> decides.\<close>

definition node_le :: "(string \<Rightarrow> 'k::linorder) \<Rightarrow> tree_node \<Rightarrow> tree_node \<Rightarrow> bool" where
  "node_le collate a b = (compare_nodes collate a b \<le> 0)"

section \<open>States of the server\<close>

text \<open>
  What holds of every state the server reaches, of a state in which a connection is open,
  and of a state after the \<open>close\<close> event of a connection. Without a watcher nothing
  listens.
\<close>

definition consistent :: "string option \<Rightarrow> server_state \<Rightarrow> bool" where
  "consistent watcher s =
     ((\<forall>x \<in> set (listeners s). x < next_connection s)
      \<and> (\<forall>x \<in> set (intervals s). x < next_connection s)
      \<and> (\<forall>x \<in> set (written s). fst x < next_connection s)
      \<and> distinct (listeners s)
      \<and> (watcher = None \<longrightarrow> listeners s = []))"

definition subscribed :: "string option \<Rightarrow> nat \<Rightarrow> server_state \<Rightarrow> bool" where
  "subscribed watcher c s =
     (consistent watcher s \<and> c < next_connection s \<and> c \<in> set (open_requests s)
      \<and> (watcher \<noteq> None \<longrightarrow> c \<in> set (listeners s)))"

definition released :: "nat \<Rightarrow> server_state \<Rightarrow> bool" where
  "released c s =
     (c < next_connection s \<and> c \<notin> set (listeners s) \<and> c \<notin> set (intervals s)
      \<and> c \<notin> set (open_requests s))"

section \<open>Paths as segments\<close>

text \<open>
  Notions for reasoning about paths. A name is a segment that \<open>normalize\<close> keeps as it
  is; \<open>isAbsolute\<close> is the function of \<open>path.posix\<close>; \<open>abs_segments\<close> are the segments
  of a path resolved against the working directory.
\<close>

definition is_name :: "string \<Rightarrow> bool" where
  "is_name s = (s \<noteq> [] \<and> s \<noteq> ''.'' \<and> s \<noteq> ''..'')"

definition slash_free :: "string \<Rightarrow> bool" where
  "slash_free s = (\<forall>c \<in> set s. \<not> is_slash c)"

definition abs_segments :: "string \<Rightarrow> string \<Rightarrow> string list" where
  "abs_segments cwd p =
     normalize_segments False []
       (split_on is_slash (if p \<noteq> [] \<and> hd p = CHR ''/'' then p else cwd @ ''/'' @ p))"

definition isAbsolute :: "string \<Rightarrow> bool" where
  "isAbsolute p = (p \<noteq> [] \<and> hd p = CHR ''/'')"

text \<open>
  The entries of a directory at every depth, each with the \<open>fullPath\<close> that
  \<open>buildFileTree\<close> computes for it and its name; the nodes of a tree at every depth; and
  what it means that a node stands for an entry.
\<close>

fun entries_below :: "path_module \<Rightarrow> string \<Rightarrow> fsnode \<Rightarrow> (string \<times> string \<times> fsnode) list"
  and all_entries :: "path_module \<Rightarrow> string \<Rightarrow> (string \<times> fsnode) list \<Rightarrow> (string \<times> string \<times> fsnode) list"
  where
  "entries_below P d (Dir es) = all_entries P d es"
| "entries_below P d (File content) = []"
| "entries_below P d NoAccess = []"
| "entries_below P d Special = []"
| "all_entries P d [] = []"
| "all_entries P d ((entry_name, entry) # es) =
     (join P d entry_name, entry_name, entry)
       # entries_below P (join P d entry_name) entry @ all_entries P d es"

fun nodes_below :: "tree_node \<Rightarrow> tree_node list"
  and flatten :: "tree_node list \<Rightarrow> tree_node list" where
  "nodes_below (TreeNode n p t ch) =
     TreeNode n p t ch # (case ch of None \<Rightarrow> [] | Some cs \<Rightarrow> flatten cs)"
| "flatten [] = []"
| "flatten (t # ts) = nodes_below t @ flatten ts"

definition stands_for :: "path_module \<Rightarrow> string \<Rightarrow> tree_node \<Rightarrow> string \<times> string \<times> fsnode \<Rightarrow> bool" where
  "stands_for P base t e =
     (case e of (fullPath, entry_name, entry) \<Rightarrow>
        name t = entry_name
        \<and> (type t = file_node \<longleftrightarrow> isFile entry)
        \<and> (type t = directory_node \<longleftrightarrow> isDirectory entry)
        \<and> path t = relative P base fullPath)"

section \<open>Fixtures\<close>

text \<open>
  Concrete stand-ins for the libraries, used where a statement is instantiated: the
  lexer knows the token sequences of the documents of the test suite, and the highlighter
  wraps its input in a \<open>span\<close>.
\<close>

definition fixture_docs :: "(string \<times> token list) list" where
  "fixture_docs =
     [(''# First'', [Heading 1 ''First'']),
      (''# Second'', [Heading 1 ''Second'']),
      (''# Hello World!'', [Heading 1 ''Hello World!'']),
      (''```mermaid'' @ [CHR 0x0A] @ ''graph TD'' @ [CHR 0x0A] @ ''A-->B'' @ [CHR 0x0A] @ ''```'',
         [Code (''graph TD'' @ [CHR 0x0A] @ ''A-->B'') (Some ''mermaid'')])]"

definition fixture_ext :: md_ext where
  "fixture_ext =
     \<lparr>lexer = (\<lambda>c. case map_of fixture_docs c of Some ts \<Rightarrow> ts | None \<Rightarrow> [Leaf c]),
      getLanguage = (\<lambda>_. False),
      highlight = (\<lambda>t l. ''<span>'' @ t @ ''</span>''),
      highlightAuto = (\<lambda>t. ''<span>'' @ t @ ''</span>'')\<rparr>"

text \<open>
  A file system in the shape of the fixtures of the test suite, served from
  \<open>/srv/docs\<close> in directory mode; \<open>notes..md\<close> is an ordinary file whose name contains
  two dots.
\<close>

definition fixture_entries :: "(string \<times> fsnode) list" where
  "fixture_entries =
     [(''readme.md'', File ''# Hello World!''),
      (''script.js'', File ''console.log(1)''),
      (''notes..md'', File ''# First''),
      (''node_modules'', Dir [(''package'', Dir [(''readme.md'', File ''# Package'')])]),
      (''docs'', Dir [(''guide.md'', File ''# Second'')]),
      (''empty'', Dir [])]"

definition fixture_fs :: fsnode where
  "fixture_fs =
     Dir [(''srv'', Dir [(''docs'', Dir fixture_entries)]),
          (''etc'', Dir [(''passwd'', File ''root:x:0:0'')])]"

definition fixture_context :: app_context where
  "fixture_context = \<lparr>mode = directory_mode, targetPath = ''.'', basePath = ''/srv/docs''\<rparr>"

definition fixture_cwd :: string where
  "fixture_cwd = ''/home/user''"

text \<open>A collation for the fixtures: names compare by their code units.\<close>

definition code_units :: "string \<Rightarrow> nat list" where
  "code_units s = map of_char s"

lemma push_all_Nil: "push_all [] h = h"
  by (simp add: push_all_def)

lemma push_all_append: "push_all ys (push_all xs h) = push_all (xs @ ys) h"
  by (simp add: push_all_def)

lemma parse_heap:
  "snd (parse_token X t h) = push_all (token_headings t) h"
  "snd (parse_tokens X ts h) = push_all (tokens_headings ts) h"
proof (induction X t h and X ts h rule: parse_token_parse_tokens.induct)
  fix X t ts h
  assume IH1: "snd (parse_token X t h) = push_all (token_headings t) h"
    and IH2: "\<And>x y. (x, y) = parse_token X t h \<Longrightarrow>
                snd (parse_tokens X ts y) = push_all (tokens_headings ts) y"
  obtain out h' where ph: "parse_token X t h = (out, h')" by (cases "parse_token X t h")
  obtain outs h'' where pt: "parse_tokens X ts h' = (outs, h'')" by (cases "parse_tokens X ts h'")
  from IH1 ph have "h' = push_all (token_headings t) h" by simp
  moreover from IH2[of out h'] ph pt have "h'' = push_all (tokens_headings ts) h'" by simp
  ultimately show "snd (parse_tokens X (t # ts) h) = push_all (tokens_headings (t # ts)) h"
    using ph pt by (simp add: push_all_append)
qed (auto simp: push_all_Nil renderer_heading_def push_all_def Let_def split: prod.splits)

lemma parseMarkdown_result:
  "parseMarkdown X c h = (r, h') \<Longrightarrow>
     headings r = next_ref h \<and> next_ref h' = Suc (next_ref h) \<and>
     arrays h' = (arrays h)(headings_ref := tokens_headings (lexer X c), next_ref h := tokens_headings (lexer X c))"
  using parse_heap(2)[of X "lexer X c" "h\<lparr>arrays := (arrays h)(headings_ref := [])\<rparr>"]
  by (auto simp: parseMarkdown_def marked_parse_def Let_def push_all_def split: prod.splits)

lemma token_headings_id:
  "a \<in> set (token_headings t) \<Longrightarrow> h_id a = hyphenate_ws False (strip_non_slug (toLowerCase (h_text a)))"
  "a \<in> set (tokens_headings ts) \<Longrightarrow> h_id a = hyphenate_ws False (strip_non_slug (toLowerCase (h_text a)))"
  by (induction t and ts rule: token_headings_tokens_headings.induct) auto

lemma exec_loop_id:
  "b \<in> set (exec_loop prev skip s) \<Longrightarrow> h_id b = hyphenate_ws False (strip_non_slug (toLowerCase (h_text b)))"
  by (induction prev skip s rule: exec_loop.induct) (auto simp: Let_def split: if_splits option.splits)

text \<open>
  Claim C3. The ids that \<open>parseMarkdown\<close> records and the ids that \<open>extractHeadings\<close>
  computes agree whenever the heading texts agree: for any two inputs and any lexer, a
  heading returned by the renderer path and a heading returned by the line-oriented path
  with the same text have the same id.
\<close>

theorem heading_ids_agree:
  "\<forall>a \<in> set (arrays (snd (parseMarkdown X c1 h)) (headings (fst (parseMarkdown X c1 h)))).
   \<forall>b \<in> set (extractHeadings c2). h_text a = h_text b \<longrightarrow> h_id a = h_id b"
proof (intro ballI impI)
  fix a b
  obtain r h' where p: "parseMarkdown X c1 h = (r, h')" by (cases "parseMarkdown X c1 h")
  assume "a \<in> set (arrays (snd (parseMarkdown X c1 h)) (headings (fst (parseMarkdown X c1 h))))"
  with parseMarkdown_result[OF p] p have "a \<in> set (tokens_headings (lexer X c1))" by simp
  then have a: "h_id a = hyphenate_ws False (strip_non_slug (toLowerCase (h_text a)))"
    by (rule token_headings_id(2))
  assume "b \<in> set (extractHeadings c2)"
  then have b: "h_id b = hyphenate_ws False (strip_non_slug (toLowerCase (h_text b)))"
    unfolding extractHeadings_def by (rule exec_loop_id)
  assume "h_text a = h_text b"
  with a b show "h_id a = h_id b" by simp
qed

theorem heading_ids_agree_witness:
  "\<lparr>h_level = 1, h_text = ''Hello World!'', h_id = ''hello-world''\<rparr>
     \<in> set (arrays (snd (parseMarkdown fixture_ext ''# Hello World!'' module_init))
              (headings (fst (parseMarkdown fixture_ext ''# Hello World!'' module_init))))
   \<and> \<lparr>h_level = 2, h_text = ''Hello World!'', h_id = ''hello-world''\<rparr>
     \<in> set (extractHeadings ''## Hello World!'')
   \<and> h_text \<lparr>h_level = 1, h_text = ''Hello World!'', h_id = ''hello-world''\<rparr>
       = h_text \<lparr>h_level = 2, h_text = ''Hello World!'', h_id = ''hello-world''\<rparr>
   \<and> h_id \<lparr>h_level = 1, h_text = ''Hello World!'', h_id = ''hello-world''\<rparr>
       = h_id \<lparr>h_level = 2, h_text = ''Hello World!'', h_id = ''hello-world''\<rparr>"
proof -
  let ?a = "\<lparr>h_level = 1, h_text = ''Hello World!'', h_id = ''hello-world''\<rparr>"
  let ?b = "\<lparr>h_level = 2, h_text = ''Hello World!'', h_id = ''hello-world''\<rparr>"
  let ?X = "fixture_ext"
  have a: "?a \<in> set (arrays (snd (parseMarkdown ?X ''# Hello World!'' module_init))
              (headings (fst (parseMarkdown ?X ''# Hello World!'' module_init))))"
    by code_simp
  have b: "?b \<in> set (extractHeadings ''## Hello World!'')"
    by code_simp
  have t: "h_text ?a = h_text ?b" by simp
  from heading_ids_agree[rule_format, OF a b t] have "h_id ?a = h_id ?b" .
  with a b t show ?thesis by blast
qed

text \<open>
  Claim C6. Of two consecutive \<open>parseMarkdown\<close> calls, the array returned by the second
  holds exactly the headings of the second input, none of the first. The array returned
  by the first call is a copy: it is not the module-global array, it is not the array of
  the second call, and it still holds the headings of the first input afterwards.
\<close>

theorem parseMarkdown_no_leak:
  assumes "headings_ref < next_ref h0"
    and "parseMarkdown X c1 h0 = (r1, h1)"
    and "parseMarkdown X c2 h1 = (r2, h2)"
  shows "arrays h2 (headings r2) = tokens_headings (lexer X c2)
       \<and> arrays h2 (headings r1) = tokens_headings (lexer X c1)
       \<and> headings r1 \<noteq> headings r2 \<and> headings r1 \<noteq> headings_ref \<and> headings r2 \<noteq> headings_ref"
  using assms parseMarkdown_result[OF assms(2)] parseMarkdown_result[OF assms(3)]
  by auto

theorem parseMarkdown_no_leak_witness:
  "headings_ref < next_ref module_init
   \<and> arrays (snd (parseMarkdown fixture_ext ''# Second'' (snd (parseMarkdown fixture_ext ''# First'' module_init))))
        (headings (fst (parseMarkdown fixture_ext ''# Second'' (snd (parseMarkdown fixture_ext ''# First'' module_init)))))
     = [\<lparr>h_level = 1, h_text = ''Second'', h_id = ''second''\<rparr>]
   \<and> arrays (snd (parseMarkdown fixture_ext ''# Second'' (snd (parseMarkdown fixture_ext ''# First'' module_init))))
        (headings (fst (parseMarkdown fixture_ext ''# First'' module_init)))
     = [\<lparr>h_level = 1, h_text = ''First'', h_id = ''first''\<rparr>]"
proof -
  let ?p1 = "parseMarkdown fixture_ext ''# First'' module_init"
  let ?p2 = "parseMarkdown fixture_ext ''# Second'' (snd ?p1)"
  have h: "headings_ref < next_ref module_init"
    by (simp add: headings_ref_def module_init_def)
  have e1: "?p1 = (fst ?p1, snd ?p1)" and e2: "?p2 = (fst ?p2, snd ?p2)"
    by simp_all
  have l1: "tokens_headings (lexer fixture_ext ''# First'') = [\<lparr>h_level = 1, h_text = ''First'', h_id = ''first''\<rparr>]"
    by code_simp
  have l2: "tokens_headings (lexer fixture_ext ''# Second'') = [\<lparr>h_level = 1, h_text = ''Second'', h_id = ''second''\<rparr>]"
    by code_simp
  from parseMarkdown_no_leak[OF h e1 e2] h l1 l2 show ?thesis by simp
qed

lemma sublist_within: "sublist a x \<Longrightarrow> sublist a (p @ x @ s)"
  unfolding sublist_def by (metis append.assoc)

lemma sublist_parse:
  "Code body (Some ''mermaid'') \<in> set (subtokens t) \<Longrightarrow>
     sublist (renderer_code X body (Some ''mermaid'')) (fst (parse_token X t h))"
  "Code body (Some ''mermaid'') \<in> set (subtokens_list ts) \<Longrightarrow>
     sublist (renderer_code X body (Some ''mermaid'')) (fst (parse_tokens X ts h))"
proof (induction X t h and X ts h rule: parse_token_parse_tokens.induct)
  fix X before ts after h
  assume IH: "Code body (Some ''mermaid'') \<in> set (subtokens_list ts) \<Longrightarrow>
     sublist (renderer_code X body (Some ''mermaid'')) (fst (parse_tokens X ts h))"
    and mem: "Code body (Some ''mermaid'') \<in> set (subtokens (Nested before ts after))"
  from mem IH have "sublist (renderer_code X body (Some ''mermaid'')) (fst (parse_tokens X ts h))" by auto
  then show "sublist (renderer_code X body (Some ''mermaid'')) (fst (parse_token X (Nested before ts after) h))"
    by (auto split: prod.splits intro: sublist_within)
next
  fix X t ts h
  assume IH1: "Code body (Some ''mermaid'') \<in> set (subtokens t) \<Longrightarrow>
     sublist (renderer_code X body (Some ''mermaid'')) (fst (parse_token X t h))"
    and IH2: "\<And>x y. (x, y) = parse_token X t h \<Longrightarrow> Code body (Some ''mermaid'') \<in> set (subtokens_list ts) \<Longrightarrow>
     sublist (renderer_code X body (Some ''mermaid'')) (fst (parse_tokens X ts y))"
    and mem: "Code body (Some ''mermaid'') \<in> set (subtokens_list (t # ts))"
  obtain out h' where ph: "parse_token X t h = (out, h')" by (cases "parse_token X t h")
  obtain outs h'' where pt: "parse_tokens X ts h' = (outs, h'')" by (cases "parse_tokens X ts h'")
  from mem consider "Code body (Some ''mermaid'') \<in> set (subtokens t)"
    | "Code body (Some ''mermaid'') \<in> set (subtokens_list ts)" by auto
  then show "sublist (renderer_code X body (Some ''mermaid'')) (fst (parse_tokens X (t # ts) h))"
  proof cases
    case 1
    with IH1 ph have "sublist (renderer_code X body (Some ''mermaid'')) out" by simp
    then have "sublist (renderer_code X body (Some ''mermaid'')) ([] @ out @ outs)" by (rule sublist_within)
    with ph pt show ?thesis by simp
  next
    case 2
    with IH2[of out h'] ph pt have "sublist (renderer_code X body (Some ''mermaid'')) outs" by simp
    then have "sublist (renderer_code X body (Some ''mermaid'')) (out @ outs @ [])" by (rule sublist_within)
    with ph pt show ?thesis by simp
  qed
qed auto

text \<open>
  Claim C8. When the tokens of a source contain, at any depth, a fenced code block tagged
  \<open>mermaid\<close> with some body, the rendered HTML contains the container
  \<open><div class="mermaid">\<close> holding that body verbatim; the block is rendered to exactly
  that container whatever the highlighter would produce, so no highlighting markup is
  applied to it.
\<close>

theorem mermaid_verbatim:
  assumes "Code body (Some ''mermaid'') \<in> set (subtokens_list (lexer X src))"
  shows \<open>sublist (''<div class="mermaid">'' @ body @ ''</div>'') (html (fst (parseMarkdown X src h)))
         \<and> renderer_code X body (Some ''mermaid'') = ''<div class="mermaid">'' @ body @ ''</div>''\<close>
proof -
  have "sublist (renderer_code X body (Some ''mermaid''))
          (fst (parse_tokens X (lexer X src) (h\<lparr>arrays := (arrays h)(headings_ref := [])\<rparr>)))"
    using assms by (rule sublist_parse(2))
  moreover have r: \<open>renderer_code X body (Some ''mermaid'') = ''<div class="mermaid">'' @ body @ ''</div>''\<close>
    by (simp add: renderer_code_def)
  ultimately show ?thesis
    by (cases "parse_tokens X (lexer X src) (h\<lparr>arrays := (arrays h)(headings_ref := [])\<rparr>)")
       (simp add: parseMarkdown_def marked_parse_def Let_def)
qed

theorem mermaid_verbatim_witness:
  \<open>Code (''graph TD'' @ [CHR 0x0A] @ ''A-->B'') (Some ''mermaid'')
     \<in> set (subtokens_list (lexer fixture_ext
                (''```mermaid'' @ [CHR 0x0A] @ ''graph TD'' @ [CHR 0x0A] @ ''A-->B'' @ [CHR 0x0A] @ ''```'')))
   \<and> sublist (''<div class="mermaid">'' @ (''graph TD'' @ [CHR 0x0A] @ ''A-->B'') @ ''</div>'')
        (html (fst (parseMarkdown fixture_ext
                (''```mermaid'' @ [CHR 0x0A] @ ''graph TD'' @ [CHR 0x0A] @ ''A-->B'' @ [CHR 0x0A] @ ''```'') module_init)))\<close>
proof -
  let ?body = "''graph TD'' @ [CHR 0x0A] @ ''A-->B''"
  let ?src = "''```mermaid'' @ [CHR 0x0A] @ ''graph TD'' @ [CHR 0x0A] @ ''A-->B'' @ [CHR 0x0A] @ ''```''"
  have m: "Code ?body (Some ''mermaid'') \<in> set (subtokens_list (lexer fixture_ext ?src))"
    by code_simp
  from mermaid_verbatim[OF m, of module_init] m show ?thesis by blast
qed

section \<open>Path algebra\<close>

lemma split_on_nonempty: "split_on sep s \<noteq> []"
  by (induction s) (auto split: list.splits)

lemma hd_split_on_prefix: "take (length (hd (split_on sep s))) s = hd (split_on sep s)"
  by (induction s) (auto split: list.splits simp: split_on_nonempty)

lemma str_includes_segment:
  "seg \<in> set (split_on sep s) \<Longrightarrow> seg \<noteq> [] \<Longrightarrow> str_includes s seg"
proof (induction s)
  case Nil
  then show ?case by simp
next
  case (Cons c cs)
  show ?case
  proof (cases "sep c")
    case True
    with Cons show ?thesis by auto
  next
    case False
    obtain p ps where sp: "split_on sep cs = p # ps"
      using split_on_nonempty[of sep cs] by (cases "split_on sep cs") auto
    with False Cons.prems have "seg = c # p \<or> seg \<in> set ps" by auto
    then show ?thesis
    proof
      assume "seg = c # p"
      moreover have "take (length p) cs = p"
        using hd_split_on_prefix[of sep cs] sp by simp
      ultimately show ?thesis by (simp add: startsWith_def)
    next
      assume "seg \<in> set ps"
      with sp Cons show ?thesis by auto
    qed
  qed
qed

lemma split_on_append:
  "f c \<Longrightarrow> split_on f (a @ c # b) = split_on f a @ split_on f b"
proof (induction a)
  case Nil
  then show ?case by simp
next
  case (Cons x a)
  then show ?case
    by (cases "split_on f a") (auto simp: split_on_nonempty)
qed

lemma split_on_no_sep: "\<forall>c \<in> set s. \<not> f c \<Longrightarrow> split_on f s = [s]"
  by (induction s) auto

lemma split_on_pieces_all: "\<forall>p \<in> set (split_on f s). \<forall>c \<in> set p. \<not> f c"
proof (induction s)
  case Nil
  then show ?case by simp
next
  case (Cons x s)
  obtain q qs where q: "split_on f s = q # qs"
    using split_on_nonempty[of f s] by (cases "split_on f s") auto
  with Cons show ?case by auto
qed

lemma split_on_pieces: "p \<in> set (split_on f s) \<Longrightarrow> c \<in> set p \<Longrightarrow> \<not> f c"
  using split_on_pieces_all[of f s] by blast

lemma split_on_join:
  "xs \<noteq> [] \<Longrightarrow> f sep \<Longrightarrow> \<forall>x \<in> set xs. \<forall>c \<in> set x. \<not> f c \<Longrightarrow>
     split_on f (join_sep [sep] xs) = xs"
proof (induction "[sep]" xs rule: join_sep.induct)
  case 1
  then show ?case by simp
next
  case (2 s)
  then show ?case by (simp add: split_on_no_sep)
next
  case (3 s t ss)
  then have "split_on f (join_sep [sep] (t # ss)) = t # ss" by simp
  moreover have "split_on f s = [s]" using 3 by (simp add: split_on_no_sep)
  ultimately show ?case
    using split_on_append[of f sep s "join_sep [sep] (t # ss)"] 3(3) by simp
qed

lemma normalize_segments_append:
  "normalize_segments a r (xs @ ys) = normalize_segments a (normalize_segments a r xs) ys"
  by (induction xs arbitrary: r) auto

lemma normalize_segments_names:
  "\<forall>x \<in> set xs. is_name x \<Longrightarrow> normalize_segments a r xs = r @ xs"
  by (induction xs arbitrary: r) (auto simp: is_name_def)

lemma normalize_segments_elems:
  "x \<in> set (normalize_segments a r xs) \<Longrightarrow>
     x \<in> set r \<or> (x \<in> set xs \<and> is_name x) \<or> (a \<and> x = ''..'')"
proof (induction xs arbitrary: r)
  case Nil
  then show ?case by simp
next
  case (Cons s ss)
  show ?case
  proof (cases "s = [] \<or> s = ''.''")
    case True
    with Cons show ?thesis by auto
  next
    case False
    show ?thesis
    proof (cases "s = ''..''")
      case True
      with Cons.prems Cons.IH[of "butlast r"] Cons.IH[of "r @ [''..'']"] Cons.IH[of r]
      show ?thesis by (auto split: if_splits dest: in_set_butlastD)
    next
      case notdd: False
      with False have "is_name s" by (simp add: is_name_def)
      with False notdd Cons.prems Cons.IH[of "r @ [s]"] show ?thesis by auto
    qed
  qed
qed

lemma map_const_snoc: "map (\<lambda>_. d) (u @ [b]) = d # map (\<lambda>_. d) u"
  by (induction u) simp_all

lemma normalize_segments_pop:
  "\<forall>x \<in> set u. is_name x \<Longrightarrow>
     normalize_segments False (c @ u) (map (\<lambda>_. ''..'') u @ rest) = normalize_segments False c rest"
proof (induction u arbitrary: rest rule: rev_induct)
  case Nil
  then show ?case by simp
next
  case (snoc b u)
  then have b: "b \<noteq> ''..''" by (simp add: is_name_def)
  have "normalize_segments False (c @ u @ [b]) (map (\<lambda>_. ''..'') (u @ [b]) @ rest)
        = normalize_segments False (c @ u @ [b]) (''..'' # map (\<lambda>_. ''..'') u @ rest)"
    by (simp only: map_const_snoc append_Cons)
  also have "\<dots> = normalize_segments False (c @ u) (map (\<lambda>_. ''..'') u @ rest)"
    using b by (simp add: butlast_append)
  also have "\<dots> = normalize_segments False c rest"
    using snoc by simp
  finally show ?case by simp
qed

lemma normalize_segments_True_shape:
  "x \<in> set (normalize_segments True [] xs) \<Longrightarrow> x = ''..'' \<or> is_name x"
  using normalize_segments_elems[of x True "[]" xs] by auto

lemma normalize_segments_False_names:
  "\<forall>x \<in> set r. is_name x \<Longrightarrow> x \<in> set (normalize_segments False r xs) \<Longrightarrow> is_name x"
  using normalize_segments_elems[of x False r xs] by auto

lemma slash_free_dotdot: "slash_free ''..''"
  by (simp add: slash_free_def is_slash_def)

lemma normalize_segments_slash_free:
  assumes "\<forall>x \<in> set r. slash_free x" and "\<forall>x \<in> set xs. slash_free x"
    and "x \<in> set (normalize_segments a r xs)"
  shows "slash_free x"
proof -
  from normalize_segments_elems[OF assms(3)]
  consider "x \<in> set r" | "x \<in> set xs" | "x = ''..''" by blast
  then show ?thesis
  proof cases
    case 1
    with assms(1) show ?thesis by blast
  next
    case 2
    with assms(2) show ?thesis by blast
  next
    case 3
    then show ?thesis by (simp only: slash_free_dotdot)
  qed
qed

lemma normalize_segments_step:
  "normalize_segments a r (xs @ [x]) =
     (let r' = normalize_segments a r xs in
      if x = [] \<or> x = ''.'' then r'
      else if x = ''..'' then
        (if r' \<noteq> [] \<and> last r' \<noteq> ''..'' then butlast r'
         else if a then r' @ [''..''] else r')
      else r' @ [x])"
  by (simp add: normalize_segments_append Let_def)

lemma join_sep_empty_iff:
  "\<forall>x \<in> set xs. x \<noteq> [] \<Longrightarrow> join_sep sep xs = [] \<longleftrightarrow> xs = []"
  by (induction sep xs rule: join_sep.induct) auto

lemma hd_join_sep:
  "xs \<noteq> [] \<Longrightarrow> hd xs \<noteq> [] \<Longrightarrow> hd (join_sep sep xs) = hd (hd xs)"
  by (induction sep xs rule: join_sep.induct) auto

lemma normalize_segments_absorb:
  "normalize_segments False r (normalize_segments True [] xs) = normalize_segments False r xs"
proof (induction xs rule: rev_induct)
  case Nil
  then show ?case by simp
next
  case (snoc x xs)
  let ?R = "normalize_segments True [] xs"
  have IH: "normalize_segments False r ?R = normalize_segments False r xs" by (rule snoc)
  show ?case
  proof (cases "x = [] \<or> x = ''.''")
    case True
    then show ?thesis by (simp add: normalize_segments_step IH)
  next
    case False
    show ?thesis
    proof (cases "x = ''..''")
      case notdd: False
      from False notdd have "normalize_segments True [] (xs @ [x]) = ?R @ [x]"
        by (simp add: normalize_segments_step)
      then show ?thesis
        using IH by (simp add: normalize_segments_append)
    next
      case True
      show ?thesis
      proof (cases "?R \<noteq> [] \<and> last ?R \<noteq> ''..''")
        case pop: True
        then obtain R' n where R: "?R = R' @ [n]" and n: "n \<noteq> ''..''"
          by (metis append_butlast_last_id)
        have "n \<in> set ?R" using R by simp
        then have nn: "is_name n" using normalize_segments_True_shape[of n xs] n by auto
        have 1: "normalize_segments True [] (xs @ [x]) = R'"
          using True pop R by (simp add: normalize_segments_step)
        have "normalize_segments False r ?R = normalize_segments False r R' @ [n]"
          using nn by (simp add: R normalize_segments_append is_name_def)
        with IH have 2: "normalize_segments False r xs = normalize_segments False r R' @ [n]" by simp
        have "normalize_segments False r (xs @ [x]) = normalize_segments False r R'"
          using True n by (simp add: normalize_segments_step 2)
        with 1 show ?thesis by simp
      next
        case False
        with True have "normalize_segments True [] (xs @ [x]) = ?R @ [''..'']"
          by (auto simp: normalize_segments_step)
        then show ?thesis
          using True IH by (simp add: normalize_segments_append)
      qed
    qed
  qed
qed

lemma is_slash_slash: "is_slash CHR ''/''"
  by (simp add: is_slash_def)

lemma split_on_trailing: "split_on is_slash (s @ ''/'') = split_on is_slash s @ [[]]"
  using split_on_append[of is_slash "CHR ''/''" s "[]"] by (simp add: is_slash_slash)

lemma split_on_leading: "split_on is_slash (CHR ''/'' # s) = [] # split_on is_slash s"
  by (simp add: is_slash_slash)

lemma split_on_between:
  "split_on is_slash (a @ ''/'' @ b) = split_on is_slash a @ split_on is_slash b"
  using split_on_append[of is_slash "CHR ''/''" a b] by (simp add: is_slash_slash)

lemma normalize_segments_skip_empty:
  "normalize_segments a r ([] # xs) = normalize_segments a r xs"
  "normalize_segments a r (xs @ [[]]) = normalize_segments a r xs"
  by (simp_all add: normalize_segments_append)

lemma abs_segments_absolute:
  "isAbsolute p \<Longrightarrow> abs_segments cwd p = normalize_segments False [] (split_on is_slash p)"
  by (simp add: abs_segments_def isAbsolute_def)

lemma abs_segments_relative:
  "\<not> isAbsolute p \<Longrightarrow>
     abs_segments cwd p = normalize_segments (False) (abs_segments cwd []) (split_on is_slash p)"
proof -
  assume "\<not> isAbsolute p"
  then have "abs_segments cwd p = normalize_segments False [] (split_on is_slash (cwd @ ''/'' @ p))"
    by (auto simp: abs_segments_def isAbsolute_def)
  also have "\<dots> = normalize_segments False [] (split_on is_slash cwd @ split_on is_slash p)"
    by (simp only: split_on_between)
  also have "\<dots> = normalize_segments False (normalize_segments False [] (split_on is_slash cwd)) (split_on is_slash p)"
    by (simp only: normalize_segments_append)
  also have "normalize_segments False [] (split_on is_slash cwd) = abs_segments cwd []"
    using split_on_trailing[of cwd] by (simp add: abs_segments_def normalize_segments_append)
  finally show ?thesis .
qed

lemma posix_resolve_segments:
  assumes "isAbsolute cwd"
  shows "posix_resolve cwd [p] = ''/'' @ join_sep ''/'' (abs_segments cwd p)"
proof -
  from assms have c: "cwd \<noteq> []" "hd cwd = CHR ''/''" by (simp_all add: isAbsolute_def)
  show ?thesis
  proof (cases "p = []")
    case True
    with c have "resolve_loop (rev [p] @ [cwd]) [] = (cwd @ ''/'', True)" by simp
    then show ?thesis
      using True by (simp add: posix_resolve_def normalizeString_def abs_segments_def)
  next
    case False
    show ?thesis
    proof (cases "hd p = CHR ''/''")
      case True
      with False have "resolve_loop (rev [p] @ [cwd]) [] = (p @ ''/'', True)" by simp
      then show ?thesis
        using True False split_on_trailing[of p]
        by (simp add: posix_resolve_def normalizeString_def abs_segments_def normalize_segments_append)
    next
      case rel: False
      with False c have "resolve_loop (rev [p] @ [cwd]) [] = (cwd @ ''/'' @ p @ ''/'', True)" by simp
      moreover have "split_on is_slash (cwd @ ''/'' @ p @ ''/'') = split_on is_slash (cwd @ ''/'' @ p) @ [[]]"
        using split_on_trailing[of "cwd @ ''/'' @ p"] by simp
      ultimately show ?thesis
        using rel False
        by (simp add: posix_resolve_def normalizeString_def abs_segments_def normalize_segments_append)
    qed
  qed
qed

lemma split_slash_free: "x \<in> set (split_on is_slash s) \<Longrightarrow> slash_free x"
  using split_on_pieces[of x is_slash s] by (auto simp: slash_free_def)

lemma abs_segments_clean:
  "x \<in> set (abs_segments cwd p) \<Longrightarrow> is_name x \<and> slash_free x"
proof -
  assume x: "x \<in> set (abs_segments cwd p)"
  let ?s = "if p \<noteq> [] \<and> hd p = CHR ''/'' then p else cwd @ ''/'' @ p"
  from x have m: "x \<in> set (normalize_segments False [] (split_on is_slash ?s))"
    by (simp only: abs_segments_def)
  have "is_name x" using normalize_segments_False_names[OF _ m] by simp
  moreover have "slash_free x"
    using normalize_segments_slash_free[OF _ _ m] split_slash_free[of _ ?s] by simp
  ultimately show ?thesis by simp
qed

lemma path_segments_join:
  assumes "\<forall>x \<in> set segs. x \<noteq> [] \<and> slash_free x"
  shows "path_segments (''/'' @ join_sep ''/'' segs) = segs"
proof (cases "segs = []")
  case True
  then show ?thesis by (simp add: path_segments_def is_slash_slash)
next
  case False
  with assms have "split_on is_slash (join_sep ''/'' segs) = segs"
    using split_on_join[of segs is_slash "CHR ''/''"] by (auto simp: slash_free_def is_slash_slash)
  with assms show ?thesis
    by (auto simp: path_segments_def is_slash_slash filter_id_conv)
qed

lemma path_segments_resolve:
  "isAbsolute cwd \<Longrightarrow> path_segments (posix_resolve cwd [p]) = abs_segments cwd p"
proof -
  assume a: "isAbsolute cwd"
  have "\<forall>x \<in> set (abs_segments cwd p). x \<noteq> [] \<and> slash_free x"
    using abs_segments_clean[of _ cwd p] by (auto simp: is_name_def)
  then show ?thesis
    by (simp only: posix_resolve_segments[OF a] path_segments_join)
qed

lemma normalize_shape:
  "x \<in> set (normalize_segments a [] (split_on is_slash p)) \<Longrightarrow> x \<noteq> [] \<and> slash_free x"
proof -
  assume m: "x \<in> set (normalize_segments a [] (split_on is_slash p))"
  from normalize_segments_elems[OF m] have "x \<noteq> []" by (auto simp: is_name_def)
  moreover have "slash_free x"
    using normalize_segments_slash_free[OF _ _ m] split_slash_free[of _ p] by simp
  ultimately show ?thesis by simp
qed

lemma posix_normalize_cases:
  assumes "p \<noteq> []"
  defines "segs \<equiv> normalize_segments (\<not> isAbsolute p) [] (split_on is_slash p)"
  shows "(segs = [] \<and> posix_normalize p \<in> {''/'', ''./'', ''.''}
            \<and> (isAbsolute p \<longrightarrow> posix_normalize p = ''/'')
            \<and> (\<not> isAbsolute p \<longrightarrow> posix_normalize p \<noteq> ''/''))
       \<or> (segs \<noteq> [] \<and> posix_normalize p
             = (if isAbsolute p then ''/'' else []) @ join_sep ''/'' segs @ (if last p = CHR ''/'' then ''/'' else []))"
proof -
  have shape: "\<forall>x \<in> set segs. x \<noteq> [] \<and> slash_free x"
    unfolding segs_def using normalize_shape by blast
  have e: "join_sep ''/'' segs = [] \<longleftrightarrow> segs = []"
    using shape join_sep_empty_iff[of segs "''/''"] by auto
  show ?thesis
  proof (cases "hd p = CHR ''/''")
    case True
    with assms(1) have ia: "isAbsolute p" by (simp add: isAbsolute_def)
    then have ns: "normalizeString p False = join_sep ''/'' segs"
      by (simp add: normalizeString_def segs_def)
    show ?thesis
    proof (cases "segs = []")
      case e0: True
      with assms(1) True ns ia show ?thesis
        by (simp add: posix_normalize_def Let_def)
    next
      case False
      with e have "join_sep ''/'' segs \<noteq> []" by simp
      with False assms(1) True ns ia show ?thesis
        by (simp add: posix_normalize_def Let_def)
    qed
  next
    case False
    with assms(1) have ia: "\<not> isAbsolute p" by (simp add: isAbsolute_def)
    then have ns: "normalizeString p True = join_sep ''/'' segs"
      by (simp add: normalizeString_def segs_def)
    show ?thesis
    proof (cases "segs = []")
      case e0: True
      with assms(1) False ns ia show ?thesis
        by (simp add: posix_normalize_def Let_def)
    next
      case ne: False
      with e have "join_sep ''/'' segs \<noteq> []" by simp
      with ne assms(1) False ns ia show ?thesis
        by (simp add: posix_normalize_def Let_def)
    qed
  qed
qed

lemma posix_normalize_segments:
  "normalize_segments a r (split_on is_slash (posix_normalize p))
     = normalize_segments a r (normalize_segments (\<not> isAbsolute p) [] (split_on is_slash p))"
proof (cases "p = []")
  case True
  then show ?thesis by (simp add: posix_normalize_def isAbsolute_def is_slash_def)
next
  case False
  define segs where "segs = normalize_segments (\<not> isAbsolute p) [] (split_on is_slash p)"
  have shape: "\<forall>x \<in> set segs. x \<noteq> [] \<and> slash_free x"
    unfolding segs_def using normalize_shape by blast
  from posix_normalize_cases[OF False] consider
      "segs = []" "posix_normalize p \<in> {''/'', ''./'', ''.''}"
    | "segs \<noteq> []" "posix_normalize p
             = (if isAbsolute p then ''/'' else []) @ join_sep ''/'' segs @ (if last p = CHR ''/'' then ''/'' else [])"
    unfolding segs_def by blast
  then have "normalize_segments a r (split_on is_slash (posix_normalize p)) = normalize_segments a r segs"
  proof cases
    case 1
    then show ?thesis by (auto simp: is_slash_def)
  next
    case 2
    have sp: "split_on is_slash (join_sep ''/'' segs) = segs"
      using split_on_join[of segs is_slash "CHR ''/''"] 2(1) shape
      by (auto simp: slash_free_def is_slash_slash)
    have t: "split_on is_slash (join_sep ''/'' segs @ ''/'') = segs @ [[]]"
      using split_on_trailing[of "join_sep ''/'' segs"] sp by simp
    have "split_on is_slash (posix_normalize p)
            = (if isAbsolute p then [[]] else []) @ segs @ (if last p = CHR ''/'' then [[]] else [])"
      unfolding 2(2) using sp t by (simp add: is_slash_slash)
    then show ?thesis by (simp add: normalize_segments_append)
  qed
  then show ?thesis by (simp only: segs_def)
qed

lemma isAbsolute_posix_normalize: "isAbsolute (posix_normalize p) = isAbsolute p"
proof (cases "p = []")
  case True
  then show ?thesis by (simp add: posix_normalize_def isAbsolute_def)
next
  case False
  define segs where "segs = normalize_segments (\<not> isAbsolute p) [] (split_on is_slash p)"
  have shape: "\<forall>x \<in> set segs. x \<noteq> [] \<and> slash_free x"
    unfolding segs_def using normalize_shape by blast
  from posix_normalize_cases[OF False] consider
      "segs = []" "posix_normalize p \<in> {''/'', ''./'', ''.''}" "isAbsolute p \<longrightarrow> posix_normalize p = ''/''"
        "\<not> isAbsolute p \<longrightarrow> posix_normalize p \<noteq> ''/''"
    | "segs \<noteq> []" "posix_normalize p
             = (if isAbsolute p then ''/'' else []) @ join_sep ''/'' segs @ (if last p = CHR ''/'' then ''/'' else [])"
    unfolding segs_def by blast
  then show ?thesis
  proof cases
    case 1
    show ?thesis
    proof (cases "isAbsolute p")
      case True
      with 1(3) have "posix_normalize p = ''/''" by simp
      then have "isAbsolute (posix_normalize p)" by (simp add: isAbsolute_def)
      with True show ?thesis by simp
    next
      case rel: False
      with 1(2,4) have "posix_normalize p = ''./'' \<or> posix_normalize p = ''.''" by blast
      then have "\<not> isAbsolute (posix_normalize p)" by (auto simp: isAbsolute_def)
      with rel show ?thesis by simp
    qed
  next
    case 2
    then have h: "hd segs \<noteq> []" and sf: "slash_free (hd segs)" using shape by auto
    have j: "join_sep ''/'' segs \<noteq> []"
      using shape join_sep_empty_iff[of segs "''/''"] 2(1) by auto
    have "hd (join_sep ''/'' segs) = hd (hd segs)" using 2(1) h by (rule hd_join_sep)
    moreover have "hd (hd segs) \<noteq> CHR ''/''"
      using h sf by (cases "hd segs") (auto simp: slash_free_def is_slash_def)
    ultimately have hj: "hd (join_sep ''/'' segs) \<noteq> CHR ''/''" by simp
    show ?thesis
    proof (cases "isAbsolute p")
      case True
      with 2(2) have "posix_normalize p = ''/'' @ join_sep ''/'' segs @ (if last p = CHR ''/'' then ''/'' else [])"
        by simp
      then have "isAbsolute (posix_normalize p)" by (simp add: isAbsolute_def)
      with True show ?thesis by simp
    next
      case rel: False
      with 2(2) have "posix_normalize p = join_sep ''/'' segs @ (if last p = CHR ''/'' then ''/'' else [])"
        by simp
      with j hj have "\<not> isAbsolute (posix_normalize p)" by (simp add: isAbsolute_def hd_append)
      with rel show ?thesis by simp
    qed
  qed
qed

lemma abs_segments_normalize:
  "abs_segments cwd (posix_normalize p) = abs_segments cwd p"
proof (cases "isAbsolute p")
  case True
  then have "isAbsolute (posix_normalize p)" by (simp only: isAbsolute_posix_normalize)
  then have "abs_segments cwd (posix_normalize p)
               = normalize_segments False [] (split_on is_slash (posix_normalize p))"
    by (rule abs_segments_absolute)
  also have "\<dots> = normalize_segments False [] (normalize_segments False [] (split_on is_slash p))"
    using True by (simp add: posix_normalize_segments)
  also have "\<dots> = normalize_segments False [] (split_on is_slash p)"
    using normalize_segments_names[of "normalize_segments False [] (split_on is_slash p)" False "[]"]
      normalize_segments_False_names[of "[]" _ "split_on is_slash p"] by simp
  finally show ?thesis using True by (simp add: abs_segments_absolute)
next
  case False
  then have "\<not> isAbsolute (posix_normalize p)" by (simp add: isAbsolute_posix_normalize)
  then have "abs_segments cwd (posix_normalize p)
               = normalize_segments False (abs_segments cwd []) (split_on is_slash (posix_normalize p))"
    by (rule abs_segments_relative)
  also have "\<dots> = normalize_segments False (abs_segments cwd [])
                      (normalize_segments True [] (split_on is_slash p))"
    using False by (simp add: posix_normalize_segments)
  also have "\<dots> = normalize_segments False (abs_segments cwd []) (split_on is_slash p)"
    by (rule normalize_segments_absorb)
  finally show ?thesis using False by (simp add: abs_segments_relative)
qed

lemma abs_segments_join:
  assumes "\<not> isAbsolute b"
  shows "abs_segments cwd (posix_join [a, b]) = normalize_segments False (abs_segments cwd a) (split_on is_slash b)"
proof (cases "a = []")
  case True
  show ?thesis
  proof (cases "b = []")
    case True
    with \<open>a = []\<close> have "posix_join [a, b] = ''.''" by (simp add: posix_join_def)
    moreover have "\<not> isAbsolute ''.''" by (simp add: isAbsolute_def)
    ultimately show ?thesis
      using True \<open>a = []\<close> abs_segments_relative[of "''.''" cwd] by (simp add: is_slash_def)
  next
    case False
    with True have "posix_join [a, b] = posix_normalize b" by (simp add: posix_join_def)
    then show ?thesis
      using True assms by (simp add: abs_segments_normalize abs_segments_relative)
  qed
next
  case False
  show ?thesis
  proof (cases "b = []")
    case True
    with False have "posix_join [a, b] = posix_normalize a" by (simp add: posix_join_def)
    then show ?thesis using True by (simp add: abs_segments_normalize)
  next
    case bne: False
    with False have j: "posix_join [a, b] = posix_normalize (a @ ''/'' @ b)" by (simp add: posix_join_def)
    have ia: "isAbsolute (a @ ''/'' @ b) = isAbsolute a" using False by (simp add: isAbsolute_def)
    show ?thesis
    proof (cases "isAbsolute a")
      case True
      with ia have "abs_segments cwd (a @ ''/'' @ b)
                      = normalize_segments False [] (split_on is_slash (a @ ''/'' @ b))"
        by (simp add: abs_segments_absolute)
      also have "\<dots> = normalize_segments False (normalize_segments False [] (split_on is_slash a)) (split_on is_slash b)"
        by (simp only: split_on_between normalize_segments_append)
      finally show ?thesis using True j by (simp add: abs_segments_normalize abs_segments_absolute)
    next
      case rel: False
      with ia have "abs_segments cwd (a @ ''/'' @ b)
                      = normalize_segments False (abs_segments cwd []) (split_on is_slash (a @ ''/'' @ b))"
        by (simp add: abs_segments_relative)
      also have "\<dots> = normalize_segments False
                          (normalize_segments False (abs_segments cwd []) (split_on is_slash a))
                          (split_on is_slash b)"
        by (simp only: split_on_between normalize_segments_append)
      finally show ?thesis using rel j by (simp add: abs_segments_normalize abs_segments_relative)
    qed
  qed
qed

lemma strip_common_prefix:
  "strip_common xs ys = (u, d) \<Longrightarrow> \<exists>c. xs = c @ u \<and> ys = c @ d"
proof (induction xs ys rule: strip_common.induct)
  case (1 a as b bs)
  show ?case
  proof (cases "a = b")
    case True
    with 1 obtain c where "as = c @ u" "bs = c @ d" by auto
    with True have "a # as = (a # c) @ u \<and> b # bs = (a # c) @ d" by simp
    then show ?thesis by blast
  next
    case False
    with 1 show ?thesis by auto
  qed
qed auto

lemma posix_relative_cases:
  "posix_relative cwd a b =
     (if a = b \<or> posix_resolve cwd [a] = posix_resolve cwd [b] then []
      else join_sep ''/''
             (map (\<lambda>_. ''..'') (fst (strip_common (path_segments (posix_resolve cwd [a]))
                                                     (path_segments (posix_resolve cwd [b]))))
              @ snd (strip_common (path_segments (posix_resolve cwd [a]))
                                  (path_segments (posix_resolve cwd [b])))))"
  unfolding posix_relative_def Let_def by (simp split: prod.splits)

lemma split_on_join_slash:
  assumes "xs \<noteq> []" and "\<forall>x \<in> set xs. slash_free x"
  shows "split_on is_slash (join_sep ''/'' xs) = xs"
proof -
  from assms(2) have "\<forall>x \<in> set xs. \<forall>c \<in> set x. \<not> is_slash c"
    by (simp add: slash_free_def)
  with assms(1) is_slash_slash show ?thesis
    using split_on_join[of xs is_slash "CHR ''/''"] by simp
qed

lemma join_sep_relative:
  assumes "xs \<noteq> []" and "\<forall>x \<in> set xs. x \<noteq> [] \<and> slash_free x"
  shows "\<not> isAbsolute (join_sep ''/'' xs)"
proof -
  from assms have h: "hd xs \<noteq> []" and sf: "slash_free (hd xs)" by simp_all
  have "hd (join_sep ''/'' xs) = hd (hd xs)" using assms(1) h by (rule hd_join_sep)
  moreover have "hd (hd xs) \<noteq> CHR ''/''"
    using h sf by (cases "hd xs") (simp_all add: slash_free_def is_slash_def)
  ultimately show ?thesis by (simp add: isAbsolute_def)
qed

lemma relative_segments:
  assumes "isAbsolute cwd"
  shows "\<not> isAbsolute (posix_relative cwd base full)
       \<and> normalize_segments False (abs_segments cwd base) (split_on is_slash (posix_relative cwd base full))
           = abs_segments cwd full"
proof (cases "base = full \<or> posix_resolve cwd [base] = posix_resolve cwd [full]")
  case True
  then have r: "posix_relative cwd base full = []" by (simp only: posix_relative_cases if_True)
  from True have "path_segments (posix_resolve cwd [base]) = path_segments (posix_resolve cwd [full])"
    by (rule disjE) simp_all
  then have e: "abs_segments cwd base = abs_segments cwd full"
    by (simp only: path_segments_resolve[OF assms])
  have 1: "\<not> isAbsolute []" by (simp add: isAbsolute_def)
  have 2: "normalize_segments False (abs_segments cwd base) (split_on is_slash []) = abs_segments cwd base"
    by simp
  from 1 2 show ?thesis unfolding r using e by simp
next
  case False
  obtain u d where sc: "strip_common (abs_segments cwd base) (abs_segments cwd full) = (u, d)"
    by (cases "strip_common (abs_segments cwd base) (abs_segments cwd full)")
  define L where "L = map (\<lambda>_. ''..'') u @ d"
  from False have "posix_relative cwd base full =
      join_sep ''/''
             (map (\<lambda>_. ''..'') (fst (strip_common (abs_segments cwd base) (abs_segments cwd full)))
              @ snd (strip_common (abs_segments cwd base) (abs_segments cwd full)))"
    by (simp only: posix_relative_cases if_False path_segments_resolve[OF assms])
  then have r: "posix_relative cwd base full = join_sep ''/'' L"
    by (simp only: sc L_def fst_conv snd_conv)
  from strip_common_prefix[OF sc] obtain c where
    b: "abs_segments cwd base = c @ u" and f: "abs_segments cwd full = c @ d" by blast
  have un: "\<forall>x \<in> set u. is_name x"
  proof
    fix x assume "x \<in> set u"
    then have "x \<in> set (abs_segments cwd base)" by (simp add: b)
    then show "is_name x" using abs_segments_clean by blast
  qed
  have dn: "\<forall>x \<in> set d. is_name x \<and> slash_free x"
  proof
    fix x assume "x \<in> set d"
    then have "x \<in> set (abs_segments cwd full)" by (simp add: f)
    then show "is_name x \<and> slash_free x" by (rule abs_segments_clean)
  qed
  have Lshape: "\<forall>x \<in> set L. x \<noteq> [] \<and> slash_free x"
  proof
    fix x assume "x \<in> set L"
    then consider "x = ''..''" | "x \<in> set d" by (auto simp: L_def)
    then show "x \<noteq> [] \<and> slash_free x"
    proof cases
      case 1
      then show ?thesis by (simp add: slash_free_dotdot)
    next
      case 2
      with dn have "is_name x \<and> slash_free x" by blast
      then show ?thesis by (simp add: is_name_def)
    qed
  qed
  have "normalize_segments False (c @ u) (map (\<lambda>_. ''..'') u @ d) = normalize_segments False c d"
    using un by (rule normalize_segments_pop)
  also have "\<dots> = c @ d"
    using dn by (simp add: normalize_segments_names)
  finally have pop: "normalize_segments False (c @ u) L = c @ d"
    by (simp only: L_def)
  show ?thesis
  proof (cases "L = []")
    case True
    then have "u = []" and "d = []" by (simp_all add: L_def)
    then have e: "abs_segments cwd base = abs_segments cwd full" by (simp add: b f)
    have 1: "\<not> isAbsolute []" by (simp add: isAbsolute_def)
    have 2: "normalize_segments False (abs_segments cwd base) (split_on is_slash []) = abs_segments cwd base"
      by simp
    have r0: "posix_relative cwd base full = []" using r True by simp
    from 1 2 show ?thesis unfolding r0 using e by simp
  next
    case ne: False
    have sp: "split_on is_slash (join_sep ''/'' L) = L"
      using ne Lshape by (intro split_on_join_slash) simp_all
    have na: "\<not> isAbsolute (join_sep ''/'' L)"
      using ne Lshape by (rule join_sep_relative)
    have "normalize_segments False (abs_segments cwd base) (split_on is_slash (join_sep ''/'' L))
            = abs_segments cwd full"
      by (simp only: sp b f pop)
    with na show ?thesis unfolding r by simp
  qed
qed

lemma posix_relative_roundtrip:
  assumes "isAbsolute cwd"
  shows "posix_resolve cwd [posix_join [base, posix_relative cwd base full]] = posix_resolve cwd [full]"
proof -
  from relative_segments[OF assms, of base full]
  have n: "\<not> isAbsolute (posix_relative cwd base full)"
    and e: "normalize_segments False (abs_segments cwd base) (split_on is_slash (posix_relative cwd base full))
           = abs_segments cwd full"
    by simp_all
  have "abs_segments cwd (posix_join [base, posix_relative cwd base full]) = abs_segments cwd full"
    using abs_segments_join[OF n, of cwd base] e by simp
  then show ?thesis by (simp only: posix_resolve_segments[OF assms])
qed

section \<open>The file tree\<close>

lemma node_le_iff:
  "node_le collate a b \<longleftrightarrow>
     (type a = directory_node \<and> type b = file_node)
     \<or> (type a = type b \<and> collate (name a) \<le> collate (name b))"
  by (cases "type a"; cases "type b") (auto simp: node_le_def compare_nodes_def localeCompare_def)

lemma node_le_total: "node_le collate a b \<or> node_le collate b a"
  unfolding node_le_iff by (cases "type a"; cases "type b") auto

lemma node_le_trans: "node_le collate a b \<Longrightarrow> node_le collate b c \<Longrightarrow> node_le collate a c"
  unfolding node_le_iff by (cases "type a"; cases "type b"; cases "type c") auto

lemma set_insert_sorted: "set (insert_sorted cmp x xs) = insert x (set xs)"
  by (induction xs) auto

lemma set_array_sort: "set (array_sort cmp xs) = set xs"
  unfolding array_sort_def by (induction xs) (auto simp: set_insert_sorted)

lemma sorted_insert_sorted:
  "sorted_wrt (node_le collate) xs \<Longrightarrow>
     sorted_wrt (node_le collate) (insert_sorted (compare_nodes collate) x xs)"
proof (induction xs)
  case Nil
  then show ?case by simp
next
  case (Cons y ys)
  show ?case
  proof (cases "compare_nodes collate x y \<le> 0")
    case True
    then have "node_le collate x y" by (simp add: node_le_def)
    with Cons.prems have "\<forall>z \<in> set (y # ys). node_le collate x z"
      by (auto intro: node_le_trans)
    with True Cons.prems show ?thesis by simp
  next
    case False
    then have "node_le collate y x" using node_le_total[of collate x y] by (simp add: node_le_def)
    with False Cons show ?thesis by (auto simp: set_insert_sorted)
  qed
qed

lemma sorted_array_sort: "sorted_wrt (node_le collate) (array_sort (compare_nodes collate) xs)"
  unfolding array_sort_def by (induction xs) (auto intro: sorted_insert_sorted)

lemma ordered_of_sorted:
  "sorted_wrt (node_le collate) nodes \<Longrightarrow> ordered_siblings collate nodes"
proof (induction nodes)
  case Nil
  then show ?case by (simp add: ordered_siblings_def)
next
  case (Cons t ts)
  then have IH: "ordered_siblings collate ts" and le: "\<forall>u \<in> set ts. node_le collate t u" by auto
  show ?case
  proof (cases "type t")
    case directory_node
    with IH le show ?thesis
      by (auto simp: ordered_siblings_def Let_def node_le_iff)
  next
    case file_node
    with le have all: "\<forall>u \<in> set ts. type u = file_node \<and> collate (name t) \<le> collate (name u)"
      by (auto simp: node_le_iff)
    then have "filter (\<lambda>t. type t = directory_node) ts = []" and "filter (\<lambda>t. type t = file_node) ts = ts"
      by (auto simp: filter_empty_conv filter_id_conv)
    with file_node IH all show ?thesis
      by (auto simp: ordered_siblings_def Let_def)
  qed
qed

lemma all_well_formed_iff:
  "all_well_formed collate es ts \<longleftrightarrow> (\<forall>t \<in> set ts. well_formed_node collate es t)"
  by (induction ts) auto

lemma well_formed_node_Cons:
  "well_formed_node collate es t \<Longrightarrow> well_formed_node collate (e # es) t"
proof (cases t)
  case (TreeNode n p ty ch)
  assume "well_formed_node collate es t"
  with TreeNode show ?thesis
    by (cases ty; cases ch) auto
qed

lemma all_well_formed_Cons:
  "all_well_formed collate es ts \<Longrightarrow> all_well_formed collate (e # es) ts"
  by (simp add: all_well_formed_iff well_formed_node_Cons)

lemma contains_markdown_file:
  "list_ex (\<lambda>(entry_name, entry). entry_name = n \<and> isFile entry) es \<Longrightarrow> isMarkdownFile n \<Longrightarrow>
   n \<notin> set IGNORE_PATTERNS \<Longrightarrow> contains_markdown es"
  by (induction es) auto

lemma contains_markdown_dir:
  "list_ex (\<lambda>(entry_name, entry). entry_name = n \<and>
      (case entry of Dir sub \<Rightarrow> contains_markdown sub \<and> Q sub | _ \<Rightarrow> False)) es \<Longrightarrow>
   n \<notin> set IGNORE_PATTERNS \<Longrightarrow> contains_markdown es"
proof (induction es)
  case Nil
  then show ?case by simp
next
  case (Cons e es)
  obtain entry_name entry where e: "e = (entry_name, entry)" by (cases e)
  with Cons show ?case by (cases entry) auto
qed

lemma well_formed_node_contains:
  "well_formed_node collate es t \<Longrightarrow> contains_markdown es"
proof (cases t)
  case (TreeNode n p ty ch)
  assume wf: "well_formed_node collate es t"
  show ?thesis
  proof (cases ty)
    case file_node
    with wf TreeNode show ?thesis by (auto intro: contains_markdown_file)
  next
    case directory_node
    with wf TreeNode obtain cs where "ch = Some cs" by (cases ch) auto
    with wf TreeNode directory_node show ?thesis
      by (auto intro: contains_markdown_dir[where Q="\<lambda>sub. well_formed collate sub cs"])
  qed
qed

lemma well_formed_node_has_file:
  "well_formed_node collate es t \<Longrightarrow> has_file t"
proof (cases t)
  case (TreeNode n p ty ch)
  assume wf: "well_formed_node collate es t"
  show ?thesis
  proof (cases ty)
    case file_node
    with TreeNode show ?thesis by simp
  next
    case directory_node
    with wf TreeNode obtain cs where "ch = Some cs" by (cases ch) auto
    with wf TreeNode directory_node show ?thesis by simp
  qed
qed

lemma hasMarkdownFiles_member: "t \<in> set ts \<Longrightarrow> has_file t \<Longrightarrow> hasMarkdownFiles ts"
  by (induction ts) auto

lemma hasMarkdownFiles_Nil_iff: "hasMarkdownFiles ts \<Longrightarrow> ts \<noteq> []"
  by (cases ts) auto

lemma scan_entries_well_formed:
  assumes "\<And>entry_name entry d tree. (entry_name, entry) \<in> set es \<Longrightarrow>
             buildFileTree P collate entry d base = Inr tree \<Longrightarrow>
             \<exists>sub. entry = Dir sub \<and> well_formed collate sub tree"
    and "scan_entries P collate es dirPath base = Inr nodes"
  shows "all_well_formed collate es nodes"
  using assms
proof (induction es arbitrary: nodes)
  case Nil
  then show ?case by simp
next
  case (Cons e es)
  obtain entry_name entry where e: "e = (entry_name, entry)" by (cases e)
  have IH: "\<And>nodes. scan_entries P collate es dirPath base = Inr nodes \<Longrightarrow> all_well_formed collate es nodes"
    using Cons.IH Cons.prems(1) by (meson list.set_intros(2))
  show ?case
  proof (cases "entry_name \<in> set IGNORE_PATTERNS")
    case True
    with Cons.prems(2) e IH show ?thesis by (auto intro: all_well_formed_Cons)
  next
    case notign: False
    show ?thesis
    proof (cases "isDirectory entry")
      case True
      from Cons.prems(2) e notign True obtain children' rest where
        b: "buildFileTree P collate entry (join P dirPath entry_name) base = Inr children'"
        and r: "scan_entries P collate es dirPath base = Inr rest"
        and n: "nodes = (if 0 < length children' \<or> hasMarkdownFiles children'
                         then TreeNode entry_name (relative P base (join P dirPath entry_name)) directory_node (Some children') # rest
                         else rest)"
        by (auto simp: Let_def split: sum.splits if_splits)
      from Cons.prems(1)[of entry_name entry, OF _ b] e obtain sub where
        sub: "entry = Dir sub" and wf: "well_formed collate sub children'" by auto
      from IH[OF r] have rest: "all_well_formed collate (e # es) rest" by (rule all_well_formed_Cons)
      show ?thesis
      proof (cases "0 < length children' \<or> hasMarkdownFiles children'")
        case False
        with n rest show ?thesis by simp
      next
        case True
        then have "children' \<noteq> []" by (auto dest: hasMarkdownFiles_Nil_iff)
        then obtain t where "t \<in> set children'" by (cases children') auto
        with wf have wt: "well_formed_node collate sub t" by (simp add: all_well_formed_iff)
        then have cm: "contains_markdown sub" by (rule well_formed_node_contains)
        from wt have "has_file t" by (rule well_formed_node_has_file)
        with \<open>t \<in> set children'\<close> have hm: "hasMarkdownFiles children'"
          by (rule hasMarkdownFiles_member)
        from True n have n': "nodes = TreeNode entry_name (relative P base (join P dirPath entry_name))
                                directory_node (Some children') # rest"
          by simp
        have "well_formed_node collate (e # es)
                (TreeNode entry_name (relative P base (join P dirPath entry_name)) directory_node (Some children'))"
          using notign \<open>children' \<noteq> []\<close> hm cm wf sub e by simp
        with rest show ?thesis unfolding n' by simp
      qed
    next
      case notdir: False
      show ?thesis
      proof (cases "isFile entry \<and> isMarkdownFile entry_name")
        case True
        with Cons.prems(2) e notign notdir obtain rest where
          r: "scan_entries P collate es dirPath base = Inr rest"
          and n: "nodes = TreeNode entry_name (relative P base (join P dirPath entry_name)) file_node None # rest"
          by (auto simp: Let_def split: sum.splits)
        from IH[OF r] have "all_well_formed collate (e # es) rest" by (rule all_well_formed_Cons)
        with n True e notign show ?thesis by simp
      next
        case False
        with Cons.prems(2) e notign notdir IH show ?thesis
          by (auto simp: Let_def intro: all_well_formed_Cons)
      qed
    qed
  qed
qed

lemma buildFileTree_Dir:
  "buildFileTree P collate entry d base = Inr tree \<Longrightarrow> \<exists>sub. entry = Dir sub \<and> well_formed collate sub tree"
proof (induction entry arbitrary: d tree)
  case (Dir es)
  from Dir.prems obtain nodes where s: "scan_entries P collate es d base = Inr nodes"
    and t: "tree = array_sort (compare_nodes collate) nodes"
    by (auto split: sum.splits)
  have "all_well_formed collate es nodes"
  proof (rule scan_entries_well_formed[OF _ s])
    fix entry_name entry d' tree'
    assume "(entry_name, entry) \<in> set es" and "buildFileTree P collate entry d' base = Inr tree'"
    then show "\<exists>sub. entry = Dir sub \<and> well_formed collate sub tree'"
      using Dir.IH[of "(entry_name, entry)" entry d' tree'] by auto
  qed
  then have "all_well_formed collate es tree"
    by (simp add: all_well_formed_iff t set_array_sort)
  moreover have "ordered_siblings collate tree"
    unfolding t by (rule ordered_of_sorted) (rule sorted_array_sort)
  ultimately show ?case by simp
qed simp_all

text \<open>
  Claim C4. Every tree that \<open>buildFileTree\<close> returns for a directory is well formed
  against the entries of that directory, at every level: a directory node has at least
  one child and a file node at or below its children, and it stands for a directory that
  contains, directly or further down and on a way through no ignored name, a regular
  file whose name ends in \<open>.md\<close> or \<open>.markdown\<close> in any case of letters, so that a
  directory that is empty or holds no such file has no node; no node bears one of the
  ignored names; among siblings the directories precede the files and each group is in
  the order of the collation.
\<close>

theorem buildFileTree_well_formed:
  "buildFileTree P collate (Dir es) dirPath base = Inr tree \<Longrightarrow> well_formed collate es tree"
  using buildFileTree_Dir[of P collate "Dir es" dirPath base tree] by simp

theorem buildFileTree_well_formed_witness:
  "buildFileTree (posix_path fixture_cwd) code_units (Dir fixture_entries) ''/srv/docs'' ''/srv/docs''
     = Inr [TreeNode ''docs'' ''docs'' directory_node
              (Some [TreeNode ''guide.md'' ''docs/guide.md'' file_node None]),
            TreeNode ''notes..md'' ''notes..md'' file_node None,
            TreeNode ''readme.md'' ''readme.md'' file_node None]
   \<and> well_formed code_units fixture_entries
        [TreeNode ''docs'' ''docs'' directory_node
              (Some [TreeNode ''guide.md'' ''docs/guide.md'' file_node None]),
            TreeNode ''notes..md'' ''notes..md'' file_node None,
            TreeNode ''readme.md'' ''readme.md'' file_node None]"
proof -
  have b: "buildFileTree (posix_path fixture_cwd) code_units (Dir fixture_entries) ''/srv/docs'' ''/srv/docs''
     = Inr [TreeNode ''docs'' ''docs'' directory_node
              (Some [TreeNode ''guide.md'' ''docs/guide.md'' file_node None]),
            TreeNode ''notes..md'' ''notes..md'' file_node None,
            TreeNode ''readme.md'' ''readme.md'' file_node None]"
    by code_simp
  from buildFileTree_well_formed[OF b] b show ?thesis by simp
qed

section \<open>The paths of the nodes\<close>

lemma set_flatten: "set (flatten ts) = (\<Union>t \<in> set ts. set (nodes_below t))"
  by (induction ts) auto

lemma flatten_array_sort: "set (flatten (array_sort cmp ts)) = set (flatten ts)"
  by (simp add: set_flatten set_array_sort)

lemma set_all_entries_Cons:
  "set (all_entries P d ((entry_name, entry) # es)) =
     insert (join P d entry_name, entry_name, entry)
       (set (entries_below P (join P d entry_name) entry) \<union> set (all_entries P d es))"
  by simp

lemma scan_entries_Cons:
  assumes "scan_entries P collate ((entry_name, entry) # es) d base = Inr nodes"
  shows "(entry_name \<in> set IGNORE_PATTERNS \<and> scan_entries P collate es d base = Inr nodes)
       \<or> (entry_name \<notin> set IGNORE_PATTERNS \<and> isDirectory entry \<and>
            (\<exists>children' rest.
               buildFileTree P collate entry (join P d entry_name) base = Inr children'
               \<and> scan_entries P collate es d base = Inr rest
               \<and> nodes = (if children' \<noteq> []
                           then TreeNode entry_name (relative P base (join P d entry_name)) directory_node (Some children') # rest
                           else rest)))
       \<or> (entry_name \<notin> set IGNORE_PATTERNS \<and> \<not> isDirectory entry \<and> isFile entry \<and> isMarkdownFile entry_name \<and>
            (\<exists>rest. scan_entries P collate es d base = Inr rest
               \<and> nodes = TreeNode entry_name (relative P base (join P d entry_name)) file_node None # rest))
       \<or> (entry_name \<notin> set IGNORE_PATTERNS \<and> \<not> isDirectory entry \<and> \<not> (isFile entry \<and> isMarkdownFile entry_name)
            \<and> scan_entries P collate es d base = Inr nodes)"
proof (cases "entry_name \<in> set IGNORE_PATTERNS")
  case True
  with assms show ?thesis by simp
next
  case notign: False
  show ?thesis
  proof (cases "isDirectory entry")
    case True
    have h: "hasMarkdownFiles cs \<Longrightarrow> cs \<noteq> []" for cs by (cases cs) auto
    from assms notign True obtain children' where
      b: "buildFileTree P collate entry (join P d entry_name) base = Inr children'"
      by (cases "buildFileTree P collate entry (join P d entry_name) base") (simp_all add: Let_def)
    from assms notign True b obtain rest where
      r: "scan_entries P collate es d base = Inr rest"
      by (cases "scan_entries P collate es d base") (simp_all add: Let_def)
    from assms notign True b r h[of children']
    have "nodes = (if children' \<noteq> []
                   then TreeNode entry_name (relative P base (join P d entry_name)) directory_node (Some children') # rest
                   else rest)"
      by (cases "children' = []") (auto simp: Let_def)
    with notign True b r show ?thesis by blast
  next
    case notdir: False
    show ?thesis
    proof (cases "isFile entry \<and> isMarkdownFile entry_name")
      case True
      from assms notign notdir True obtain rest where
        r: "scan_entries P collate es d base = Inr rest"
        by (cases "scan_entries P collate es d base") (simp_all add: Let_def)
      from assms notign notdir True r
      have "nodes = TreeNode entry_name (relative P base (join P d entry_name)) file_node None # rest"
        by (simp add: Let_def)
      with notign notdir True r show ?thesis by blast
    next
      case False
      with assms notign notdir have "scan_entries P collate es d base = Inr nodes"
        by (simp add: Let_def)
      with notign notdir False show ?thesis by blast
    qed
  qed
qed

lemma located_Cons:
  "\<exists>e \<in> set (all_entries P d es). stands_for P base t e \<Longrightarrow>
     \<exists>e \<in> set (all_entries P d (e0 # es)). stands_for P base t e"
  by (cases e0) (simp only: set_all_entries_Cons, blast)

lemma located_below:
  "\<exists>e \<in> set (entries_below P (join P d entry_name) entry). stands_for P base t e \<Longrightarrow>
     \<exists>e \<in> set (all_entries P d ((entry_name, entry) # es)). stands_for P base t e"
  by (simp only: set_all_entries_Cons, blast)

lemma located_own:
  "stands_for P base t (join P d entry_name, entry_name, entry) \<Longrightarrow>
     \<exists>e \<in> set (all_entries P d ((entry_name, entry) # es)). stands_for P base t e"
  by (simp only: set_all_entries_Cons, blast)

lemma scan_entries_located:
  assumes "\<And>entry_name entry d' tree. (entry_name, entry) \<in> set es \<Longrightarrow>
             buildFileTree P collate entry d' base = Inr tree \<Longrightarrow>
             \<forall>t \<in> set (flatten tree). \<exists>e \<in> set (entries_below P d' entry). stands_for P base t e"
    and "scan_entries P collate es d base = Inr nodes"
  shows "\<forall>t \<in> set (flatten nodes). \<exists>e \<in> set (all_entries P d es). stands_for P base t e"
  using assms
proof (induction es arbitrary: nodes)
  case Nil
  then show ?case by simp
next
  case (Cons e0 es)
  obtain entry_name entry where e0: "e0 = (entry_name, entry)" by (cases e0)
  let ?full = "join P d entry_name"
  have IH: "\<forall>t \<in> set (flatten ns). \<exists>e \<in> set (all_entries P d (e0 # es)). stands_for P base t e"
    if a: "scan_entries P collate es d base = Inr ns" for ns
  proof -
    have "\<forall>t \<in> set (flatten ns). \<exists>e \<in> set (all_entries P d es). stands_for P base t e"
    proof (rule Cons.IH[OF _ a])
      fix entry_name entry d' tree
      assume "(entry_name, entry) \<in> set es" and b: "buildFileTree P collate entry d' base = Inr tree"
      then have "(entry_name, entry) \<in> set (e0 # es)" by simp
      from Cons.prems(1)[OF this b]
      show "\<forall>t \<in> set (flatten tree). \<exists>e \<in> set (entries_below P d' entry). stands_for P base t e" .
    qed
    then show ?thesis using located_Cons by blast
  qed
  from Cons.prems(2) have sc: "scan_entries P collate ((entry_name, entry) # es) d base = Inr nodes"
    by (simp only: e0)
  from scan_entries_Cons[OF sc] consider
      (skip) "scan_entries P collate es d base = Inr nodes"
    | (dir) children' rest where "isDirectory entry"
        "buildFileTree P collate entry ?full base = Inr children'"
        "scan_entries P collate es d base = Inr rest"
        "nodes = (if children' \<noteq> []
                  then TreeNode entry_name (relative P base ?full) directory_node (Some children') # rest
                  else rest)"
    | (md) rest where "\<not> isDirectory entry" "isFile entry"
        "scan_entries P collate es d base = Inr rest"
        "nodes = TreeNode entry_name (relative P base ?full) file_node None # rest"
    by blast
  then show ?case
  proof cases
    case skip
    then show ?thesis by (rule IH)
  next
    case dir
    have rest: "\<forall>t \<in> set (flatten rest). \<exists>e \<in> set (all_entries P d (e0 # es)). stands_for P base t e"
      using dir(3) by (rule IH)
    have "(entry_name, entry) \<in> set (e0 # es)" by (simp add: e0)
    from Cons.prems(1)[OF this dir(2)]
    have kids: "\<forall>t \<in> set (flatten children'). \<exists>e \<in> set (entries_below P ?full entry). stands_for P base t e" .
    have own: "stands_for P base (TreeNode entry_name (relative P base ?full) directory_node (Some children'))
                 (?full, entry_name, entry)"
      using dir(1) by (cases entry) (simp_all add: stands_for_def)
    show ?thesis
    proof
      fix t assume t: "t \<in> set (flatten nodes)"
      show "\<exists>e \<in> set (all_entries P d (e0 # es)). stands_for P base t e"
      proof (cases "children' = []")
        case True
        with dir(4) t rest show ?thesis by simp
      next
        case False
        with dir(4) t consider
            "t = TreeNode entry_name (relative P base ?full) directory_node (Some children')"
          | "t \<in> set (flatten children')" | "t \<in> set (flatten rest)"
          by auto
        then show ?thesis
        proof cases
          case 1
          with own show ?thesis unfolding e0 by (simp only: located_own)
        next
          case 2
          with kids have "\<exists>e \<in> set (entries_below P ?full entry). stands_for P base t e" by blast
          then show ?thesis unfolding e0 by (rule located_below)
        next
          case 3
          with rest show ?thesis by blast
        qed
      qed
    qed
  next
    case md
    have rest: "\<forall>t \<in> set (flatten rest). \<exists>e \<in> set (all_entries P d (e0 # es)). stands_for P base t e"
      using md(3) by (rule IH)
    have own: "stands_for P base (TreeNode entry_name (relative P base ?full) file_node None)
                 (?full, entry_name, entry)"
      using md(1,2) by (simp add: stands_for_def)
    show ?thesis
    proof
      fix t assume t: "t \<in> set (flatten nodes)"
      with md(4) consider "t = TreeNode entry_name (relative P base ?full) file_node None"
        | "t \<in> set (flatten rest)" by auto
      then show "\<exists>e \<in> set (all_entries P d (e0 # es)). stands_for P base t e"
      proof cases
        case 1
        with own show ?thesis unfolding e0 by (simp only: located_own)
      next
        case 2
        with rest show ?thesis by blast
      qed
    qed
  qed
qed

lemma buildFileTree_located:
  "buildFileTree P collate entry d base = Inr tree \<Longrightarrow>
     \<forall>t \<in> set (flatten tree). \<exists>e \<in> set (entries_below P d entry). stands_for P base t e"
proof (induction entry arbitrary: d tree)
  case (Dir es)
  from Dir.prems obtain nodes where s: "scan_entries P collate es d base = Inr nodes"
    and t: "tree = array_sort (compare_nodes collate) nodes"
    by (cases "scan_entries P collate es d base") simp_all
  have "\<forall>t \<in> set (flatten nodes). \<exists>e \<in> set (all_entries P d es). stands_for P base t e"
  proof (rule scan_entries_located[OF _ s])
    fix entry_name entry d' tree'
    assume m: "(entry_name, entry) \<in> set es" and b: "buildFileTree P collate entry d' base = Inr tree'"
    from m have "entry \<in> Basic_BNFs.snds (entry_name, entry)" by simp
    from Dir.IH[OF m this b]
    show "\<forall>t \<in> set (flatten tree'). \<exists>e \<in> set (entries_below P d' entry). stands_for P base t e" .
  qed
  then show ?case by (simp add: t flatten_array_sort)
qed simp_all

text \<open>
  Claim C5, on a POSIX host. Every node of a tree that \<open>buildFileTree\<close> returns, at
  any depth, stands for an entry of the directory with the same name and kind, its path
  is the relative path (\<open>path.posix.relative\<close>, so written with forward slashes) from
  the base directory to the \<open>fullPath\<close> of that entry, and joining the base directory
  with the node's path resolves to the same absolute path as the entry's \<open>fullPath\<close>.
\<close>

theorem buildFileTree_paths:
  assumes "isAbsolute cwd"
    and "buildFileTree (posix_path cwd) collate (Dir es) dirPath base = Inr tree"
  shows "\<forall>t \<in> set (flatten tree). \<exists>(fullPath, entry_name, entry) \<in> set (all_entries (posix_path cwd) dirPath es).
           name t = entry_name
           \<and> (type t = file_node \<longleftrightarrow> isFile entry)
           \<and> (type t = directory_node \<longleftrightarrow> isDirectory entry)
           \<and> path t = posix_relative cwd base fullPath
           \<and> posix_resolve cwd [posix_join [base, path t]] = posix_resolve cwd [fullPath]"
proof
  fix t assume "t \<in> set (flatten tree)"
  with buildFileTree_located[OF assms(2)] obtain e where
    e: "e \<in> set (all_entries (posix_path cwd) dirPath es)" and s: "stands_for (posix_path cwd) base t e"
    by auto
  obtain fullPath entry_name entry where e3: "e = (fullPath, entry_name, entry)" by (cases e)
  from s have p: "path t = posix_relative cwd base fullPath"
    and o: "name t = entry_name" "type t = file_node \<longleftrightarrow> isFile entry"
      "type t = directory_node \<longleftrightarrow> isDirectory entry"
    by (simp_all add: stands_for_def e3 posix_path_def)
  have "posix_resolve cwd [posix_join [base, path t]] = posix_resolve cwd [fullPath]"
    unfolding p using assms(1) by (rule posix_relative_roundtrip)
  with p o e show "\<exists>(fullPath, entry_name, entry) \<in> set (all_entries (posix_path cwd) dirPath es).
           name t = entry_name
           \<and> (type t = file_node \<longleftrightarrow> isFile entry)
           \<and> (type t = directory_node \<longleftrightarrow> isDirectory entry)
           \<and> path t = posix_relative cwd base fullPath
           \<and> posix_resolve cwd [posix_join [base, path t]] = posix_resolve cwd [fullPath]"
    unfolding e3 by blast
qed

theorem buildFileTree_paths_witness:
  "isAbsolute fixture_cwd
   \<and> buildFileTree (posix_path fixture_cwd) code_units (Dir fixture_entries) ''/srv/docs'' ''/srv/docs''
     = Inr [TreeNode ''docs'' ''docs'' directory_node
              (Some [TreeNode ''guide.md'' ''docs/guide.md'' file_node None]),
            TreeNode ''notes..md'' ''notes..md'' file_node None,
            TreeNode ''readme.md'' ''readme.md'' file_node None]
   \<and> (\<exists>(fullPath, entry_name, entry) \<in> set (all_entries (posix_path fixture_cwd) ''/srv/docs'' fixture_entries).
         name (TreeNode ''guide.md'' ''docs/guide.md'' file_node None) = entry_name
         \<and> (type (TreeNode ''guide.md'' ''docs/guide.md'' file_node None) = file_node \<longleftrightarrow> isFile entry)
         \<and> (type (TreeNode ''guide.md'' ''docs/guide.md'' file_node None) = directory_node \<longleftrightarrow> isDirectory entry)
         \<and> path (TreeNode ''guide.md'' ''docs/guide.md'' file_node None) = posix_relative fixture_cwd ''/srv/docs'' fullPath
         \<and> posix_resolve fixture_cwd [posix_join [''/srv/docs'', path (TreeNode ''guide.md'' ''docs/guide.md'' file_node None)]]
             = posix_resolve fixture_cwd [fullPath])
   \<and> posix_resolve fixture_cwd [posix_join [''/srv/docs'', ''docs/guide.md'']] = ''/srv/docs/docs/guide.md''"
proof -
  let ?t = "TreeNode ''guide.md'' ''docs/guide.md'' file_node None"
  let ?tree = "[TreeNode ''docs'' ''docs'' directory_node (Some [?t]),
            TreeNode ''notes..md'' ''notes..md'' file_node None,
            TreeNode ''readme.md'' ''readme.md'' file_node None]"
  have 1: "isAbsolute fixture_cwd" by (simp add: isAbsolute_def fixture_cwd_def)
  have 2: "buildFileTree (posix_path fixture_cwd) code_units (Dir fixture_entries) ''/srv/docs'' ''/srv/docs''
     = Inr ?tree"
    by code_simp
  have m: "?t \<in> set (flatten ?tree)" by simp
  have 4: "posix_resolve fixture_cwd [posix_join [''/srv/docs'', ''docs/guide.md'']] = ''/srv/docs/docs/guide.md''"
    by code_simp
  note 3 = buildFileTree_paths[OF 1 2, THEN bspec, OF m]
  show ?thesis by (intro conjI 1 2 3 4)
qed

text \<open>
  On a Windows host \<open>node:path\<close> is \<open>path.win32\<close> and the paths of the nodes are written
  with backslashes: the claim does not hold regardless of the host.
\<close>

theorem buildFileTree_paths_counterexample:
  "buildFileTree (win32_path (''C:'' @ [CHR 0x5C] @ ''work'')) code_units
      (Dir [(''docs'', Dir [(''guide.md'', File ''# Guide'')])])
      (''C:'' @ [CHR 0x5C] @ ''proj'') (''C:'' @ [CHR 0x5C] @ ''proj'')
     = Inr [TreeNode ''docs'' ''docs'' directory_node
              (Some [TreeNode ''guide.md'' (''docs'' @ [CHR 0x5C] @ ''guide.md'') file_node None])]
   \<and> ''docs'' @ [CHR 0x5C] @ ''guide.md'' \<noteq> ''docs/guide.md''"
proof -
  have 1: "buildFileTree (win32_path (''C:'' @ [CHR 0x5C] @ ''work'')) code_units
      (Dir [(''docs'', Dir [(''guide.md'', File ''# Guide'')])])
      (''C:'' @ [CHR 0x5C] @ ''proj'') (''C:'' @ [CHR 0x5C] @ ''proj'')
     = Inr [TreeNode ''docs'' ''docs'' directory_node
              (Some [TreeNode ''guide.md'' (''docs'' @ [CHR 0x5C] @ ''guide.md'') file_node None])]"
    by code_simp
  have 2: "''docs'' @ [CHR 0x5C] @ ''guide.md'' \<noteq> ''docs/guide.md''" by simp
  show ?thesis by (intro conjI 1 2)
qed

section \<open>The content operation\<close>

lemma handler_missing:
  "content_handler cwd X ctx root h None = (Reply 400 (Error ''File parameter is required''), [], h)"
  "content_handler cwd X ctx root h (Some []) = (Reply 400 (Error ''File parameter is required''), [], h)"
  by (simp_all add: content_handler_def)

lemma handler_invalid:
  "f \<noteq> [] \<Longrightarrow> str_includes (posix_normalize f) ''..'' \<or> startsWith (posix_normalize f) ''/'' \<Longrightarrow>
     content_handler cwd X ctx root h (Some f) = (Reply 403 (Error ''Invalid file path''), [], h)"
  by (simp add: content_handler_def Let_def)

text \<open>
  Claim C9. A request whose normalized path contains the two characters \<open>..\<close> anywhere is
  answered with 403 \<open>Invalid file path\<close> and no access to the file system is made. The
  file name \<open>notes..md\<close> is its own normal form and has no segment \<open>..\<close>, and it is
  rejected: the check rejects more than the paths with an up-traversal segment.
\<close>

theorem traversal_check_substring:
  "(f \<noteq> [] \<and> str_includes (posix_normalize f) ''..'' \<longrightarrow>
      content_handler cwd X ctx root h (Some f) = (Reply 403 (Error ''Invalid file path''), [], h))
   \<and> posix_normalize ''notes..md'' = ''notes..md''
   \<and> ''..'' \<notin> set (split_on is_slash (posix_normalize ''notes..md''))
   \<and> content_handler cwd X ctx root h (Some ''notes..md'') = (Reply 403 (Error ''Invalid file path''), [], h)"
proof -
  have n: "posix_normalize ''notes..md'' = ''notes..md''" by code_simp
  have s: "''..'' \<notin> set (split_on is_slash ''notes..md'')" by (simp add: is_slash_def)
  have i: "str_includes ''notes..md'' ''..''" by code_simp
  have c: "str_includes (posix_normalize ''notes..md'') ''..'' \<or> startsWith (posix_normalize ''notes..md'') ''/''"
    unfolding n using i by (rule disjI1)
  have ne: "''notes..md'' \<noteq> []" by simp
  have r: "content_handler cwd X ctx root h (Some ''notes..md'') = (Reply 403 (Error ''Invalid file path''), [], h)"
    using ne c by (rule handler_invalid)
  have g: "f \<noteq> [] \<and> str_includes (posix_normalize f) ''..'' \<longrightarrow>
      content_handler cwd X ctx root h (Some f) = (Reply 403 (Error ''Invalid file path''), [], h)"
    using handler_invalid[of f cwd X ctx root h] by blast
  have s': "''..'' \<notin> set (split_on is_slash (posix_normalize ''notes..md''))"
    unfolding n by (rule s)
  from g n s' r show ?thesis by blast
qed

theorem traversal_check_substring_witness:
  "''a..b/c'' \<noteq> [] \<and> str_includes (posix_normalize ''a..b/c'') ''..''
   \<and> content_handler fixture_cwd fixture_ext fixture_context fixture_fs module_init (Some ''a..b/c'')
       = (Reply 403 (Error ''Invalid file path''), [], module_init)"
proof -
  have i: "str_includes (posix_normalize ''a..b/c'') ''..''" by code_simp
  from traversal_check_substring[of "''a..b/c''" fixture_cwd fixture_ext fixture_context fixture_fs module_init] i
  show ?thesis by simp
qed

text \<open>
  Claim C10. \<open>fileExists\<close> is true of every path on which \<open>stat\<close> succeeds, whatever the
  entry is. A request that passes the two path checks and whose resolved path names a
  directory is therefore not answered with 404: the handler goes on to read the path as
  a file, which is the second access it makes (and the read fails).
\<close>

theorem fileExists_directory:
  assumes "stat root r = Inr n" and "isDirectory n"
    and "f \<noteq> []"
    and "\<not> str_includes (posix_normalize f) ''..''" and "\<not> startsWith (posix_normalize f) ''/''"
    and "r = posix_resolve cwd [if mode ctx = file_mode
                                then posix_resolve cwd [basePath ctx, targetPath ctx]
                                else posix_join [basePath ctx, posix_normalize f]]"
    and "startsWith r (posix_resolve cwd [basePath ctx])"
  shows "fileExists root r
       \<and> content_handler cwd X ctx root h (Some f) = (Rejected EISDIR, [Stat r, ReadFile r], h)"
proof -
  from assms(1) have e: "fileExists root r" by (simp add: fileExists_def)
  from assms(1,2) have rd: "readFile root r = Inl EISDIR"
    by (cases n) (auto simp: stat_def readFile_def split: option.splits)
  from e rd assms(3-7) show ?thesis
    by (simp add: content_handler_def Let_def)
qed

theorem fileExists_directory_witness:
  "stat fixture_fs ''/srv/docs/docs'' = Inr (Dir [(''guide.md'', File ''# Second'')])
   \<and> isDirectory (Dir [(''guide.md'', File ''# Second'')])
   \<and> fileExists fixture_fs ''/srv/docs/docs''
   \<and> content_handler fixture_cwd fixture_ext fixture_context fixture_fs module_init (Some ''docs'')
       = (Rejected EISDIR, [Stat ''/srv/docs/docs'', ReadFile ''/srv/docs/docs''], module_init)"
proof -
  have 1: "stat fixture_fs ''/srv/docs/docs'' = Inr (Dir [(''guide.md'', File ''# Second'')])" by code_simp
  have 2: "isDirectory (Dir [(''guide.md'', File ''# Second'')])" by simp
  have 3: "''docs'' \<noteq> []" by simp
  have 4: "\<not> str_includes (posix_normalize ''docs'') ''..''" by code_simp
  have 5: "\<not> startsWith (posix_normalize ''docs'') ''/''" by code_simp
  have 6: "''/srv/docs/docs'' = posix_resolve fixture_cwd [if mode fixture_context = file_mode
                                then posix_resolve fixture_cwd [basePath fixture_context, targetPath fixture_context]
                                else posix_join [basePath fixture_context, posix_normalize ''docs'']]" by code_simp
  have 7: "startsWith ''/srv/docs/docs'' (posix_resolve fixture_cwd [basePath fixture_context])" by code_simp
  from fileExists_directory[OF 1 2 3 4 5 6 7, of fixture_ext module_init] 1 2 show ?thesis by simp
qed

lemma handler_denied:
  assumes "f \<noteq> []"
    and "\<not> str_includes (posix_normalize f) ''..''" and "\<not> startsWith (posix_normalize f) ''/''"
    and "r = posix_resolve cwd [if mode ctx = file_mode
                                then posix_resolve cwd [basePath ctx, targetPath ctx]
                                else posix_join [basePath ctx, posix_normalize f]]"
    and "\<not> startsWith r (posix_resolve cwd [basePath ctx])"
  shows "content_handler cwd X ctx root h (Some f) = (Reply 403 (Error ''Access denied''), [], h)"
  using assms by (simp add: content_handler_def Let_def)

lemma handler_not_found:
  assumes "f \<noteq> []"
    and "\<not> str_includes (posix_normalize f) ''..''" and "\<not> startsWith (posix_normalize f) ''/''"
    and "r = posix_resolve cwd [if mode ctx = file_mode
                                then posix_resolve cwd [basePath ctx, targetPath ctx]
                                else posix_join [basePath ctx, posix_normalize f]]"
    and "startsWith r (posix_resolve cwd [basePath ctx])"
    and "stat root r = Inl e"
  shows "content_handler cwd X ctx root h (Some f) = (Reply 404 (Error ''File not found''), [Stat r], h)"
  using assms by (simp add: content_handler_def Let_def fileExists_def)

lemma handler_found:
  assumes "f \<noteq> []"
    and "\<not> str_includes (posix_normalize f) ''..''" and "\<not> startsWith (posix_normalize f) ''/''"
    and "r = posix_resolve cwd [if mode ctx = file_mode
                                then posix_resolve cwd [basePath ctx, targetPath ctx]
                                else posix_join [basePath ctx, posix_normalize f]]"
    and "startsWith r (posix_resolve cwd [basePath ctx])"
    and "stat root r = Inr (File raw)"
    and "parseMarkdown X raw h = (parsed, h')"
  shows "content_handler cwd X ctx root h (Some f) =
           (Reply 200 (Content (posix_normalize f)
                         (rewriteAssetPaths (html parsed)
                            (if mode ctx = file_mode then [] else posix_dirname (posix_normalize f)))
                         (arrays h' (headings parsed)) raw),
            [Stat r, ReadFile r], h')"
proof -
  from assms(6) have "fileExists root r" and "readFile root r = Inr raw"
    by (auto simp: fileExists_def stat_def readFile_def split: option.splits)
  with assms(1-5,7) show ?thesis
    by (simp add: content_handler_def Let_def)
qed

text \<open>
  Claim C1, as the code has it. A request without the \<open>file\<close> parameter, or with an empty
  one, gets 400. A request whose normalized path contains \<open>..\<close> anywhere (so in
  particular one with an up-traversal segment) or starts with \<open>/\<close> gets 403
  \<open>Invalid file path\<close>, and one whose resolved path does not start with the resolved
  serving root gets 403 \<open>Access denied\<close>; in neither case is the file system touched.
  Past these checks, a resolved path on which \<open>stat\<close> fails gets 404, a reply whose code
  differs from those of the validation errors, and a resolved path that names a regular
  file gets 200 with the normalized path, the rendered HTML with its asset paths
  rewritten, the headings and the raw text.
\<close>

theorem content_operation:
  assumes "r = posix_resolve cwd [if mode ctx = file_mode
                                  then posix_resolve cwd [basePath ctx, targetPath ctx]
                                  else posix_join [basePath ctx, posix_normalize f]]"
    and "parseMarkdown X raw h = (parsed, h')"
  shows "content_handler cwd X ctx root h None = (Reply 400 (Error ''File parameter is required''), [], h)
    \<and> content_handler cwd X ctx root h (Some []) = (Reply 400 (Error ''File parameter is required''), [], h)
    \<and> (f \<noteq> [] \<and> (''..'' \<in> set (split_on is_slash (posix_normalize f))
                   \<or> str_includes (posix_normalize f) ''..'' \<or> startsWith (posix_normalize f) ''/'') \<longrightarrow>
          content_handler cwd X ctx root h (Some f) = (Reply 403 (Error ''Invalid file path''), [], h))
    \<and> (f \<noteq> [] \<and> \<not> str_includes (posix_normalize f) ''..'' \<and> \<not> startsWith (posix_normalize f) ''/''
          \<and> \<not> startsWith r (posix_resolve cwd [basePath ctx]) \<longrightarrow>
          content_handler cwd X ctx root h (Some f) = (Reply 403 (Error ''Access denied''), [], h))
    \<and> (f \<noteq> [] \<and> \<not> str_includes (posix_normalize f) ''..'' \<and> \<not> startsWith (posix_normalize f) ''/''
          \<and> startsWith r (posix_resolve cwd [basePath ctx]) \<and> stat root r = Inl e \<longrightarrow>
          content_handler cwd X ctx root h (Some f) = (Reply 404 (Error ''File not found''), [Stat r], h))
    \<and> (f \<noteq> [] \<and> \<not> str_includes (posix_normalize f) ''..'' \<and> \<not> startsWith (posix_normalize f) ''/''
          \<and> startsWith r (posix_resolve cwd [basePath ctx]) \<and> stat root r = Inr (File raw) \<longrightarrow>
          content_handler cwd X ctx root h (Some f) =
            (Reply 200 (Content (posix_normalize f)
                          (rewriteAssetPaths (html parsed)
                             (if mode ctx = file_mode then [] else posix_dirname (posix_normalize f)))
                          (arrays h' (headings parsed)) raw),
             [Stat r, ReadFile r], h'))"
proof -
  have seg: "''..'' \<in> set (split_on is_slash (posix_normalize f)) \<Longrightarrow> str_includes (posix_normalize f) ''..''"
    by (rule str_includes_segment) simp_all
  show ?thesis
    using handler_missing[of cwd X ctx root h] handler_invalid[of f cwd X ctx root h] seg
      handler_denied[OF _ _ _ assms(1), of X root h]
      handler_not_found[OF _ _ _ assms(1), of root e X h]
      handler_found[OF _ _ _ assms(1) _ _ assms(2), of root]
    by blast
qed

theorem content_operation_witness:
  "fst (content_handler fixture_cwd fixture_ext fixture_context fixture_fs module_init (Some ''docs/guide.md''))
     = Reply 200 (Content ''docs/guide.md''
         (rewriteAssetPaths (html (fst (parseMarkdown fixture_ext ''# Second'' module_init))) ''docs'')
         [\<lparr>h_level = 1, h_text = ''Second'', h_id = ''second''\<rparr>] ''# Second'')
   \<and> content_handler fixture_cwd fixture_ext fixture_context fixture_fs module_init (Some ''nonexistent.md'')
     = (Reply 404 (Error ''File not found''), [Stat ''/srv/docs/nonexistent.md''], module_init)
   \<and> content_handler fixture_cwd fixture_ext fixture_context fixture_fs module_init (Some ''../../../etc/passwd'')
     = (Reply 403 (Error ''Invalid file path''), [], module_init)
   \<and> content_handler fixture_cwd fixture_ext fixture_context fixture_fs module_init (Some ''/etc/passwd'')
     = (Reply 403 (Error ''Invalid file path''), [], module_init)"
proof -
  let ?pm = "parseMarkdown fixture_ext ''# Second'' module_init"
  have pm: "?pm = (fst ?pm, snd ?pm)" by simp
  have hs: "arrays (snd ?pm) (headings (fst ?pm)) = [\<lparr>h_level = 1, h_text = ''Second'', h_id = ''second''\<rparr>]"
    by code_simp
  \<comment> \<open>a file that exists\<close>
  have r1: "''/srv/docs/docs/guide.md'' = posix_resolve fixture_cwd [if mode fixture_context = file_mode
              then posix_resolve fixture_cwd [basePath fixture_context, targetPath fixture_context]
              else posix_join [basePath fixture_context, posix_normalize ''docs/guide.md'']]"
    by code_simp
  have a1: "''docs/guide.md'' \<noteq> [] \<and> \<not> str_includes (posix_normalize ''docs/guide.md'') ''..''
      \<and> \<not> startsWith (posix_normalize ''docs/guide.md'') ''/''
      \<and> startsWith ''/srv/docs/docs/guide.md'' (posix_resolve fixture_cwd [basePath fixture_context])
      \<and> stat fixture_fs ''/srv/docs/docs/guide.md'' = Inr (File ''# Second'')"
    by code_simp
  have n1: "posix_normalize ''docs/guide.md'' = ''docs/guide.md''" and d1: "posix_dirname ''docs/guide.md'' = ''docs''"
    and m1: "mode fixture_context \<noteq> file_mode"
    by code_simp+
  from content_operation[where root=fixture_fs, OF r1 pm] a1
  have "content_handler fixture_cwd fixture_ext fixture_context fixture_fs module_init (Some ''docs/guide.md'') =
            (Reply 200 (Content (posix_normalize ''docs/guide.md'')
                          (rewriteAssetPaths (html (fst ?pm))
                             (if mode fixture_context = file_mode then [] else posix_dirname (posix_normalize ''docs/guide.md'')))
                          (arrays (snd ?pm) (headings (fst ?pm))) ''# Second''),
             [Stat ''/srv/docs/docs/guide.md'', ReadFile ''/srv/docs/docs/guide.md''], snd ?pm)"
    by blast
  then have c1: "fst (content_handler fixture_cwd fixture_ext fixture_context fixture_fs module_init (Some ''docs/guide.md''))
     = Reply 200 (Content ''docs/guide.md'' (rewriteAssetPaths (html (fst ?pm)) ''docs'')
         [\<lparr>h_level = 1, h_text = ''Second'', h_id = ''second''\<rparr>] ''# Second'')"
    by (simp add: hs n1 d1 m1)
  \<comment> \<open>a file that does not exist\<close>
  have r2: "''/srv/docs/nonexistent.md'' = posix_resolve fixture_cwd [if mode fixture_context = file_mode
              then posix_resolve fixture_cwd [basePath fixture_context, targetPath fixture_context]
              else posix_join [basePath fixture_context, posix_normalize ''nonexistent.md'']]"
    by code_simp
  have a2: "''nonexistent.md'' \<noteq> [] \<and> \<not> str_includes (posix_normalize ''nonexistent.md'') ''..''
      \<and> \<not> startsWith (posix_normalize ''nonexistent.md'') ''/''
      \<and> startsWith ''/srv/docs/nonexistent.md'' (posix_resolve fixture_cwd [basePath fixture_context])
      \<and> stat fixture_fs ''/srv/docs/nonexistent.md'' = Inl ENOENT"
    by code_simp
  from content_operation[where root=fixture_fs and e=ENOENT, OF r2 pm] a2
  have c2: "content_handler fixture_cwd fixture_ext fixture_context fixture_fs module_init (Some ''nonexistent.md'')
     = (Reply 404 (Error ''File not found''), [Stat ''/srv/docs/nonexistent.md''], module_init)"
    by blast
  \<comment> \<open>the two rejected paths of the test suite\<close>
  have a3: "''../../../etc/passwd'' \<noteq> [] \<and> ''..'' \<in> set (split_on is_slash (posix_normalize ''../../../etc/passwd''))"
    by code_simp
  from content_operation[where f="''../../../etc/passwd''" and cwd=fixture_cwd and ctx=fixture_context and root=fixture_fs, OF refl pm] a3
  have c3: "content_handler fixture_cwd fixture_ext fixture_context fixture_fs module_init (Some ''../../../etc/passwd'')
     = (Reply 403 (Error ''Invalid file path''), [], module_init)"
    by blast
  have a4: "''/etc/passwd'' \<noteq> [] \<and> startsWith (posix_normalize ''/etc/passwd'') ''/''"
    by code_simp
  from content_operation[where f="''/etc/passwd''" and cwd=fixture_cwd and ctx=fixture_context and root=fixture_fs, OF refl pm] a4
  have c4: "content_handler fixture_cwd fixture_ext fixture_context fixture_fs module_init (Some ''/etc/passwd'')
     = (Reply 403 (Error ''Invalid file path''), [], module_init)"
    by blast
  from c1 c2 c3 c4 show ?thesis by blast
qed

text \<open>
  The claim as the specification states it fails at \<open>notes..md\<close>: the parameter is
  present, the normalized path has no up-traversal segment and does not start at the
  root, the resolved path exists and is a regular file, and the reply is 403.
\<close>

theorem content_operation_counterexample:
  "''..'' \<notin> set (split_on is_slash (posix_normalize ''notes..md''))
   \<and> \<not> startsWith (posix_normalize ''notes..md'') ''/''
   \<and> fileExists fixture_fs (posix_resolve fixture_cwd
         [posix_join [basePath fixture_context, posix_normalize ''notes..md'']])
   \<and> readFile fixture_fs (posix_resolve fixture_cwd
         [posix_join [basePath fixture_context, posix_normalize ''notes..md'']]) = Inr ''# First''
   \<and> content_handler fixture_cwd fixture_ext fixture_context fixture_fs module_init (Some ''notes..md'')
       = (Reply 403 (Error ''Invalid file path''), [], module_init)"
proof -
  have n: "posix_normalize ''notes..md'' = ''notes..md''" by code_simp
  have 1: "''..'' \<notin> set (split_on is_slash (posix_normalize ''notes..md''))"
    unfolding n by (simp add: is_slash_def)
  have 2: "\<not> startsWith (posix_normalize ''notes..md'') ''/''"
    unfolding n by (simp add: startsWith_def)
  have 3: "fileExists fixture_fs (posix_resolve fixture_cwd
         [posix_join [basePath fixture_context, posix_normalize ''notes..md'']])"
    by code_simp
  have 4: "readFile fixture_fs (posix_resolve fixture_cwd
         [posix_join [basePath fixture_context, posix_normalize ''notes..md'']]) = Inr ''# First''"
    by code_simp
  have i: "str_includes ''notes..md'' ''..''" by code_simp
  have 5: "content_handler fixture_cwd fixture_ext fixture_context fixture_fs module_init (Some ''notes..md'')
       = (Reply 403 (Error ''Invalid file path''), [], module_init)"
    by (rule handler_invalid) (simp, simp only: n i simp_thms)
  from 1 2 3 4 5 show ?thesis by blast
qed

section \<open>Asset paths\<close>

lemma replacer_relative:
  "\<not> startsWith src ''http://'' \<Longrightarrow> \<not> startsWith src ''https://'' \<Longrightarrow>
   \<not> startsWith src ''data:'' \<Longrightarrow> \<not> startsWith src ''/'' \<Longrightarrow>
     replacer fileDir pfx src sfx = pfx @ posix_normalize (posix_join [''/assets'', fileDir, src]) @ sfx"
  by (simp add: replacer_def)

lemma replacer_absolute:
  "startsWith src ''http://'' \<or> startsWith src ''https://'' \<or> startsWith src ''data:'' \<or> startsWith src ''/'' \<Longrightarrow>
     replacer fileDir pfx src sfx = pfx @ src @ sfx"
  by (auto simp: replacer_def)

lemma rewriteAssetPaths_examples:
  \<open>rewriteAssetPaths ''<p><img src="../assets/photo.jpg" alt="photo"></p>'' ''docs''
     = ''<p><img src="/assets/assets/photo.jpg" alt="photo"></p>''\<close>
  \<open>rewriteAssetPaths ''<p><img src="https://example.com/img.png" alt="external"></p>'' ''docs''
     = ''<p><img src="https://example.com/img.png" alt="external"></p>''\<close>
  \<open>rewriteAssetPaths ''<p><img src="./images/test.png" alt="image"></p>'' ''.''
     = ''<p><img src="/assets/images/test.png" alt="image"></p>''\<close>
  by code_simp+

text \<open>
  Claim C7 at an image tag that carries a second attribute whose name ends in \<open>src\<close>:
  the expression takes the last \<open>src=\<close> of the tag that a quote follows, so the value of
  \<open>data-src\<close> is rewritten and the relative \<open>src\<close> of the tag stays as it was.
\<close>

theorem rewriteAssetPaths_last_src:
  \<open>rewriteAssetPaths ''<img src="a.png" data-src="b.png">'' ''docs''
     = ''<img src="a.png" data-src="/assets/docs/b.png">''\<close>
  by code_simp

section \<open>The notification channel\<close>

lemma set_off: "set (off c ls) \<subseteq> set ls"
  using set_remove1_subset[of c "rev ls"] by (auto simp: off_def)

lemma distinct_off: "distinct ls \<Longrightarrow> distinct (off c ls)"
  by (simp add: off_def)

lemma off_other: "x \<in> set ls \<Longrightarrow> x \<noteq> c \<Longrightarrow> x \<in> set (off c ls)"
  by (simp add: off_def)

lemma off_removes: "distinct ls \<Longrightarrow> c \<notin> set (off c ls)"
  by (simp add: off_def)

lemma consistent_initial: "consistent w initial"
  by (simp add: consistent_def initial_def)

lemma consistent_step: "consistent w s \<Longrightarrow> consistent w (step P w e s)"
proof (cases e)
  case Connect
  assume "consistent w s"
  with Connect show ?thesis
    by (auto simp: consistent_def Let_def less_Suc_eq)
next
  case (Chokidar ty filePath)
  assume "consistent w s"
  with Chokidar show ?thesis
    by (auto simp: consistent_def emit_def split: option.splits)
next
  case (Interval c)
  assume b: "consistent w s"
  show ?thesis
  proof (cases "c \<in> set (intervals s)")
    case True
    with Interval b show ?thesis
      by (auto simp: consistent_def)
  next
    case False
    with Interval b show ?thesis by simp
  qed
next
  case (Close c)
  assume "consistent w s"
  with Close show ?thesis
    using set_off[of c "listeners s"] by (auto simp: consistent_def distinct_off)
qed

lemma run_append: "run P w (xs @ ys) s = run P w ys (run P w xs s)"
  by (induction xs arbitrary: s) auto

lemma consistent_run: "consistent w s \<Longrightarrow> consistent w (run P w es s)"
  by (induction es arbitrary: s) (auto intro: consistent_step)

lemma messages_append:
  "written s' = written s @ xs \<Longrightarrow>
     messages c s' = messages c s @ map snd (filter (\<lambda>(c', m). c' = c) xs)"
  by (simp add: messages_def)

lemma messages_same: "written s' = written s \<Longrightarrow> messages c s' = messages c s"
  by (simp add: messages_def)

lemma filter_single: "distinct ls \<Longrightarrow> c \<in> set ls \<Longrightarrow> filter (\<lambda>x. x = c) ls = [c]"
  by (induction ls) (auto simp: filter_empty_conv)

lemma emit_messages_member:
  "distinct (listeners s) \<Longrightarrow> c \<in> set (listeners s) \<Longrightarrow>
     messages c (emit event s) = messages c s @ [fileChange event]"
proof -
  assume d: "distinct (listeners s)" and m: "c \<in> set (listeners s)"
  have "filter (\<lambda>(c', m). c' = c) (map (\<lambda>c. (c, fileChange event)) (listeners s))
          = map (\<lambda>c. (c, fileChange event)) (filter (\<lambda>x. x = c) (listeners s))"
    by (induction "listeners s") (auto simp: filter_map o_def)
  with filter_single[OF d m] show ?thesis
    by (simp add: messages_def emit_def)
qed

lemma emit_messages_other:
  "c \<notin> set (listeners s) \<Longrightarrow> messages c (emit event s) = messages c s"
proof -
  assume "c \<notin> set (listeners s)"
  then have "filter (\<lambda>(c', m). c' = c) (map (\<lambda>c. (c, fileChange event)) (listeners s)) = []"
    by (auto simp: filter_empty_conv)
  then show ?thesis by (simp add: messages_def emit_def)
qed

lemma messages_fresh: "consistent w s \<Longrightarrow> messages (next_connection s) s = []"
  by (auto simp: messages_def consistent_def filter_empty_conv)

text \<open>One step of a connection that is open.\<close>

lemma subscribed_step:
  assumes "subscribed w c s" and "e \<noteq> Close c"
  shows "subscribed w c (step P w e s)"
    and "\<exists>extra. messages c (step P w e s) = messages c s @ extra \<and> connected \<notin> set extra
           \<and> List.map_filter change_of extra = (case emission P w e of None \<Rightarrow> [] | Some event \<Rightarrow> [event])"
proof -
  from assms(1) have b: "consistent w s" and lt: "c < next_connection s" and op: "c \<in> set (open_requests s)"
    and ls: "w \<noteq> None \<longrightarrow> c \<in> set (listeners s)"
    by (auto simp: subscribed_def)
  have b': "consistent w (step P w e s)" using b by (rule consistent_step)
  show "subscribed w c (step P w e s)"
  proof (cases e)
    case Connect
    with b' lt op ls show ?thesis by (auto simp: subscribed_def Let_def split: if_splits)
  next
    case (Chokidar ty filePath)
    with b' lt op ls show ?thesis
      by (auto simp: subscribed_def emit_def split: option.splits if_splits)
  next
    case (Interval c')
    with b' lt op ls show ?thesis by (auto simp: subscribed_def split: if_splits)
  next
    case (Close c')
    with assms(2) have "c' \<noteq> c" by simp
    with Close b' lt op ls show ?thesis
      by (auto simp: subscribed_def off_other off_def split: if_splits)
  qed
  show "\<exists>extra. messages c (step P w e s) = messages c s @ extra \<and> connected \<notin> set extra
           \<and> List.map_filter change_of extra = (case emission P w e of None \<Rightarrow> [] | Some event \<Rightarrow> [event])"
  proof (cases e)
    case Connect
    with lt have "messages c (step P w e s) = messages c s @ []"
      by (simp add: messages_def Let_def)
    with Connect show ?thesis by (cases w) (auto simp: map_filter_simps)
  next
    case (Chokidar ty filePath)
    show ?thesis
    proof (cases w)
      case None
      with Chokidar show ?thesis by (simp add: map_filter_simps)
    next
      case (Some base)
      show ?thesis
      proof (cases "handleEvent P base ty filePath")
        case None
        with Chokidar Some show ?thesis by (simp add: map_filter_simps)
      next
        case (Some event)
        from ls \<open>w = Some base\<close> have "c \<in> set (listeners s)" by simp
        moreover from b have "distinct (listeners s)" by (simp add: consistent_def)
        ultimately have "messages c (emit event s) = messages c s @ [fileChange event]"
          by (simp add: emit_messages_member)
        with Chokidar Some \<open>w = Some base\<close> show ?thesis by (simp add: map_filter_simps)
      qed
    qed
  next
    case (Interval c')
    then have "messages c (step P w e s) = messages c s @ (if c' = c \<and> c' \<in> set (intervals s) then [heartbeat] else [])"
      by (auto simp: messages_def)
    with Interval show ?thesis by (cases w) (auto simp: map_filter_simps)
  next
    case (Close c')
    then have "messages c (step P w e s) = messages c s @ []"
      by (auto simp: messages_def)
    with Close show ?thesis by (cases w) (auto simp: map_filter_simps)
  qed
qed

lemma subscribed_run:
  assumes "subscribed w c s" and "Close c \<notin> set es"
  shows "subscribed w c (run P w es s)
       \<and> (\<exists>extra. messages c (run P w es s) = messages c s @ extra \<and> connected \<notin> set extra
             \<and> List.map_filter change_of extra = emissions P w es)"
  using assms
proof (induction es arbitrary: s)
  case Nil
  then show ?case by (simp add: emissions_def map_filter_simps)
next
  case (Cons e es)
  then have ne: "e \<noteq> Close c" and rest: "Close c \<notin> set es" by auto
  from subscribed_step[OF Cons.prems(1) ne, of P] obtain x where
    s1: "subscribed w c (step P w e s)"
    and m1: "messages c (step P w e s) = messages c s @ x" and c1: "connected \<notin> set x"
    and d1: "List.map_filter change_of x = (case emission P w e of None \<Rightarrow> [] | Some event \<Rightarrow> [event])"
    by blast
  from Cons.IH[OF s1 rest] obtain y where
    s2: "subscribed w c (run P w es (step P w e s))"
    and m2: "messages c (run P w es (step P w e s)) = messages c (step P w e s) @ y"
    and c2: "connected \<notin> set y"
    and d2: "List.map_filter change_of y = emissions P w es"
    by blast
  have "List.map_filter change_of (x @ y) = emissions P w (e # es)"
    using d1 d2 by (cases "emission P w e") (simp_all add: emissions_def map_filter_def)
  with s2 m1 m2 c1 c2 show ?case
    by (intro conjI exI[of _ "x @ y"]) simp_all
qed

text \<open>One step after the close event of a connection.\<close>

lemma released_step:
  assumes "released c s"
  shows "released c (step P w e s) \<and> messages c (step P w e s) = messages c s"
proof (cases e)
  case Connect
  with assms show ?thesis by (auto simp: released_def messages_def Let_def)
next
  case (Chokidar ty filePath)
  with assms show ?thesis
    by (auto simp: released_def emit_messages_other split: option.splits)
       (auto simp: emit_def)
next
  case (Interval c')
  with assms show ?thesis by (auto simp: released_def messages_def)
next
  case (Close c')
  with assms show ?thesis
    using set_off[of c' "listeners s"] by (auto simp: released_def messages_def)
qed

lemma released_run:
  "released c s \<Longrightarrow> released c (run P w es s) \<and> messages c (run P w es s) = messages c s"
proof (induction es arbitrary: s)
  case Nil
  then show ?case by simp
next
  case (Cons e es)
  from released_step[OF Cons.prems, of P w e] Cons.IH[of "step P w e s"] show ?case by simp
qed

lemma subscribed_Connect:
  "consistent w s \<Longrightarrow> subscribed w (next_connection s) (step P w Connect s)
     \<and> messages (next_connection s) (step P w Connect s) = [connected]"
proof -
  assume b: "consistent w s"
  then have b': "consistent w (step P w Connect s)" by (rule consistent_step)
  from b have m: "messages (next_connection s) s = []" by (rule messages_fresh)
  have "messages (next_connection s) (step P w Connect s) = messages (next_connection s) s @ [connected]"
    by (simp add: messages_def Let_def)
  with m have "messages (next_connection s) (step P w Connect s) = [connected]" by simp
  moreover have "subscribed w (next_connection s) (step P w Connect s)"
    using b' by (auto simp: subscribed_def Let_def)
  ultimately show ?thesis by simp
qed

lemma released_Close:
  "subscribed w c s \<Longrightarrow> released c (step P w (Close c) s)
     \<and> messages c (step P w (Close c) s) = messages c s"
proof -
  assume a: "subscribed w c s"
  then have d: "distinct (listeners s)" and n: "w = None \<longrightarrow> listeners s = []"
    by (auto simp: subscribed_def consistent_def)
  from a have "c \<in> set (open_requests s)" and "c < next_connection s" by (auto simp: subscribed_def)
  with d n show ?thesis
    using off_removes[OF d, of c] by (auto simp: released_def messages_def)
qed

text \<open>
  Claim C2. Take any run of the server in which a connection is opened after the events
  \<open>before\<close> and stays open during the events \<open>during\<close>. The first message written to
  it is the acknowledgement, and no other acknowledgement follows, so every change event
  it receives comes after the acknowledgement. Its listener is called with exactly the
  events the watcher emits during \<open>during\<close>, in the order of emission. After the \<open>close\<close>
  event of its request nothing more is written to it, whatever events follow.
\<close>

theorem notification_channel:
  assumes "c = next_connection (run P w before initial)"
    and "Close c \<notin> set during"
  shows "(\<exists>rest. messages c (run P w (before @ Connect # during) initial) = connected # rest
             \<and> connected \<notin> set rest)
       \<and> deliveries c (run P w (before @ Connect # during) initial) = emissions P w during
       \<and> messages c (run P w (before @ Connect # during @ Close c # after) initial)
           = messages c (run P w (before @ Connect # during) initial)"
proof -
  let ?s0 = "run P w before initial"
  let ?s1 = "step P w Connect ?s0"
  let ?s2 = "run P w during ?s1"
  have c0: "consistent w ?s0" by (rule consistent_run) (rule consistent_initial)
  from subscribed_Connect[OF c0, of P] assms(1)
  have s1: "subscribed w c ?s1" and m1: "messages c ?s1 = [connected]" by simp_all
  from subscribed_run[OF s1 assms(2), of P] obtain extra where
    s2: "subscribed w c ?s2" and m2: "messages c ?s2 = messages c ?s1 @ extra"
    and c2: "connected \<notin> set extra" and d2: "List.map_filter change_of extra = emissions P w during"
    by blast
  have r: "run P w (before @ Connect # during) initial = ?s2"
    by (simp add: run_append)
  have r': "run P w (before @ Connect # during @ Close c # after) initial
              = run P w after (step P w (Close c) ?s2)"
    by (simp add: run_append)
  from released_Close[OF s2, of P] released_run[of c "step P w (Close c) ?s2" P w after]
  have "messages c (run P w after (step P w (Close c) ?s2)) = messages c ?s2" by simp
  moreover have "deliveries c ?s2 = emissions P w during"
    using m1 m2 d2 by (simp add: deliveries_def map_filter_simps)
  ultimately show ?thesis
    using m1 m2 c2 by (simp add: r r')
qed

theorem notification_channel_witness:
  "0 = next_connection (run (posix_path fixture_cwd) (Some ''/srv/docs'')
         [Chokidar change ''/srv/docs/early.md''] initial)
   \<and> Close 0 \<notin> set [Chokidar add ''/srv/docs/readme.md'', Interval 0,
                         Chokidar change ''/srv/docs/script.js'',
                         Chokidar change ''/srv/docs/docs/guide.md'']
   \<and> messages 0 (run (posix_path fixture_cwd) (Some ''/srv/docs'')
         ([Chokidar change ''/srv/docs/early.md''] @ Connect #
          [Chokidar add ''/srv/docs/readme.md'', Interval 0,
           Chokidar change ''/srv/docs/script.js'',
           Chokidar change ''/srv/docs/docs/guide.md''] @ Close 0 #
          [Chokidar unlink ''/srv/docs/readme.md'', Interval 0]) initial)
     = [connected,
        fileChange \<lparr>ev_type = add, ev_file = ''readme.md''\<rparr>,
        heartbeat,
        fileChange \<lparr>ev_type = change, ev_file = ''docs/guide.md''\<rparr>]"
proof -
  let ?P = "posix_path fixture_cwd"
  let ?w = "Some ''/srv/docs''"
  let ?before = "[Chokidar change ''/srv/docs/early.md'']"
  let ?during = "[Chokidar add ''/srv/docs/readme.md'', Interval 0,
                  Chokidar change ''/srv/docs/script.js'',
                  Chokidar change ''/srv/docs/docs/guide.md'']"
  have 1: "0 = next_connection (run ?P ?w ?before initial)" by code_simp
  have 2: "Close 0 \<notin> set ?during" by simp
  have 3: "messages 0 (run ?P ?w (?before @ Connect # ?during) initial)
     = [connected,
        fileChange \<lparr>ev_type = add, ev_file = ''readme.md''\<rparr>,
        heartbeat,
        fileChange \<lparr>ev_type = change, ev_file = ''docs/guide.md''\<rparr>]"
    by code_simp
  have e: "messages 0 (run ?P ?w (?before @ Connect # ?during @ Close 0 #
                [Chokidar unlink ''/srv/docs/readme.md'', Interval 0]) initial)
           = messages 0 (run ?P ?w (?before @ Connect # ?during) initial)"
    using notification_channel[OF 1 2, of "[Chokidar unlink ''/srv/docs/readme.md'', Interval 0]"]
    by (rule conjunct2[THEN conjunct2])
  have 4: "messages 0 (run ?P ?w (?before @ Connect # ?during @ Close 0 #
                [Chokidar unlink ''/srv/docs/readme.md'', Interval 0]) initial)
     = [connected,
        fileChange \<lparr>ev_type = add, ev_file = ''readme.md''\<rparr>,
        heartbeat,
        fileChange \<lparr>ev_type = change, ev_file = ''docs/guide.md''\<rparr>]"
    by (rule trans[OF e 3])
  show ?thesis by (intro conjI 1 2 4)
qed

end
